theory Spec2Isabelle
  imports Main "HOL-Library.Multiset"
begin

section \<open>JavaScript values and the object heap\<close>

text \<open>
  The plugin (\<^verbatim>\<open>src/index.js\<close>) reads a configuration object, which may be nested and
  may refer to itself. Objects and arrays are therefore cells of a heap and a value
  that is an object is a reference to its cell; two references are the same object
  (\<^verbatim>\<open>===\<close>) when they hold the same address. Numbers are integers or \<^verbatim>\<open>NaN\<close>: of a
  number the code only asks whether it is falsy.
\<close>

type_synonym addr = nat

datatype jsval =
    JUndefined
  | JNull
  | JBool bool
  | JNum int
  | JNaN
  | JStr string
  | JRef addr

type_synonym props = "(string \<times> jsval) list"

datatype cell = ObjCell props | ArrCell "jsval list"

type_synonym heap = "cell list"

definition cell_at :: "heap \<Rightarrow> addr \<Rightarrow> cell option" where
  "cell_at h a = (if a < length h then Some (h ! a) else None)"

text \<open>The decimal name of an array index, as \<^verbatim>\<open>Object.keys\<close> gives it for an array.\<close>

definition digit :: "nat \<Rightarrow> char" where
  "digit n = ''0123456789'' ! (n mod 10)"

function string_of_nat :: "nat \<Rightarrow> string" where
  "string_of_nat n = (if n < 10 then [digit n] else string_of_nat (n div 10) @ [digit n])"
  by pat_completeness auto
termination
  by (relation "measure id") auto

text \<open>
  The own enumerable properties of a cell, in the order \<^verbatim>\<open>Object.keys\<close> lists them;
  \<^verbatim>\<open>o[key]\<close> is \<open>map_of\<close> on this list.
\<close>

fun cell_props :: "cell \<Rightarrow> props" where
  "cell_props (ObjCell ps) = ps"
| "cell_props (ArrCell vs) = zip (map string_of_nat [0..<length vs]) vs"

text \<open>\<^verbatim>\<open>!v\<close> is \<open>\<not> truthy v\<close>.\<close>

fun truthy :: "jsval \<Rightarrow> bool" where
  "truthy JUndefined = False"
| "truthy JNull = False"
| "truthy (JBool b) = b"
| "truthy (JNum n) = (n \<noteq> 0)"
| "truthy JNaN = False"
| "truthy (JStr s) = (s \<noteq> [])"
| "truthy (JRef a) = True"

section \<open>The path enumerator\<close>

subsection \<open>The library call \<^verbatim>\<open>traverse(obj).paths()\<close>\<close>

text \<open>
  Modelled from the spec: the package \<^verbatim>\<open>traverse\<close> is a dependency and its code is not
  among the sources. Sections 3 and 4.1 of the specification say what the call gives:
  the key path of every location reachable from the root, the root's empty path
  included, parents before their children, and nothing "beyond the point of
  recursion" where an object is met again below itself. \<open>walker\<close> visits a value
  with the objects it is inside of (\<open>parents\<close>) and the keys that led to it
  (\<open>path\<close>); a visit yields the path and whether the value is one of its own
  parents (the library's \<^verbatim>\<open>circular\<close>), and only a value that is not is descended into.
\<close>

lemma unvisited_decreases:
  assumes "a < n" and "a \<notin> set parents"
  shows "length (filter (\<lambda>b. b \<notin> set (a # parents)) [0..<n])
       < length (filter (\<lambda>b. b \<notin> set parents) [0..<n])"
proof -
  let ?unvisited = "filter (\<lambda>b. b \<notin> set parents) [0..<n]"
  have "filter (\<lambda>b. b \<notin> set (a # parents)) [0..<n] = filter (\<lambda>b. b \<noteq> a) ?unvisited"
    by (auto intro: filter_cong)
  moreover have "a \<in> set ?unvisited"
    using assms by simp
  then have "length (filter (\<lambda>b. b \<noteq> a) ?unvisited) < length ?unvisited"
    by (rule length_filter_less) simp
  ultimately show ?thesis
    by (simp only:)
qed

function (sequential) walker ::
  "heap \<Rightarrow> addr list \<Rightarrow> string list \<Rightarrow> jsval \<Rightarrow> (string list \<times> bool) list" where
  "walker h parents path (JRef a) =
     (case cell_at h a of
        None \<Rightarrow> [(path, False)]
      | Some c \<Rightarrow>
          if a \<in> set parents then [(path, True)]
          else (path, False) #
               concat (map (\<lambda>(key, child). walker h (a # parents) (path @ [key]) child)
                           (cell_props c)))"
| "walker h parents path v = [(path, False)]"
  by pat_completeness auto
termination
proof (relation "measure (\<lambda>(h, parents, path, v).
                   length (filter (\<lambda>b. b \<notin> set parents) [0..<length h]))")
  show "wf (measure (\<lambda>(h, parents, path, v).
              length (filter (\<lambda>b. b \<notin> set parents) [0..<length h])))"
    by simp
next
  fix h :: heap and parents :: "addr list" and path :: "string list"
    and a :: addr and c :: cell and key :: string and child :: jsval
  assume "cell_at h a = Some c" and "a \<notin> set parents"
  then have "a < length h"
    by (simp add: cell_at_def split: if_splits)
  with \<open>a \<notin> set parents\<close>
  show "((h, a # parents, path @ [key], child), (h, parents, path, JRef a))
        \<in> measure (\<lambda>(h, parents, path, v).
              length (filter (\<lambda>b. b \<notin> set parents) [0..<length h]))"
    using unvisited_decreases [of a "length h" parents] by simp
qed

definition paths :: "heap \<Rightarrow> jsval \<Rightarrow> string list list" where
  "paths h obj = map fst (walker h [] [] obj)"

subsection \<open>\<^verbatim>\<open>Array.prototype.join\<close> and \<^verbatim>\<open>Array.prototype.sort\<close>\<close>

fun join :: "string \<Rightarrow> string list \<Rightarrow> string" where
  "join sep [] = []"
| "join sep [k] = k"
| "join sep (k # k' # ks) = k @ sep @ join sep (k' # ks)"

text \<open>
  \<^verbatim>\<open>sort(comparefn)\<close> belongs to the JavaScript engine. It calls \<^verbatim>\<open>comparefn(a, b)\<close> on
  pairs of elements and orders by the sign of the answer; for a function that is not a
  consistent comparison the language leaves the order to the engine. The engine's
  sort is therefore a parameter of everything that sorts.
\<close>

type_synonym sort_fn = "(string \<Rightarrow> string \<Rightarrow> int) \<Rightarrow> string list \<Rightarrow> string list"

text \<open>
  The insertion sort of V8 before version 7.0 (Node.js up to 10), which it used for
  arrays of at most ten elements:
  \<^verbatim>\<open>
  for (var i = from + 1; i < to; i++) {
    var element = a[i];
    for (var j = i - 1; j >= from; j--) {
      var tmp = a[j];
      var order = comparefn(tmp, element);
      if (order > 0) { a[j + 1] = tmp; } else { break; }
    }
    a[j + 1] = element;
  }
  \<close>
  \<open>shift_in\<close> is the inner loop, on the sorted prefix held back to front.
\<close>

fun shift_in :: "('a \<Rightarrow> 'a \<Rightarrow> int) \<Rightarrow> 'a \<Rightarrow> 'a list \<Rightarrow> 'a list" where
  "shift_in comparefn element [] = [element]"
| "shift_in comparefn element (tmp # below) =
     (if comparefn tmp element > 0 then tmp # shift_in comparefn element below
      else element # tmp # below)"

definition InsertionSort :: "('a \<Rightarrow> 'a \<Rightarrow> int) \<Rightarrow> 'a list \<Rightarrow> 'a list" where
  "InsertionSort comparefn a = rev (foldl (\<lambda>front element. shift_in comparefn element front) [] a)"

text \<open>
  An engine that leaves the array as it is. V8 from version 7.0 on does so whenever no
  call of \<^verbatim>\<open>comparefn\<close> answers a negative number: it takes the whole array for one
  ascending run.
\<close>

definition unchanged_sort :: "('a \<Rightarrow> 'a \<Rightarrow> int) \<Rightarrow> 'a list \<Rightarrow> 'a list" where
  "unchanged_sort comparefn a = a"

subsection \<open>\<^verbatim>\<open>getSortedObjectPaths\<close>\<close>

text \<open>
  \<^verbatim>\<open>
  export const getSortedObjectPaths = (obj) => {
    if (!obj) { return []; }
    return traverse(obj)
      .paths()
      .filter((arr) => arr.length)
      .map((arr) => arr.join("."))
      .sort((elem) => elem.length);
  };
  \<close>
  The function given to \<^verbatim>\<open>sort\<close> takes one argument: it answers the length of the first
  element of the pair and never looks at the second.
\<close>

definition getSortedObjectPaths :: "sort_fn \<Rightarrow> heap \<Rightarrow> jsval \<Rightarrow> string list" where
  "getSortedObjectPaths srt h obj =
     (if \<not> truthy obj then []
      else srt (\<lambda>elem _. int (length elem))
             (map (join ''.'') (filter (\<lambda>arr. length arr \<noteq> 0) (paths h obj))))"

section \<open>The replacement resolver\<close>

subsection \<open>Reading a property\<close>

text \<open>
  \<^verbatim>\<open>v[key]\<close>: an own property of an object or an array, the \<^verbatim>\<open>length\<close> of an array, a
  character or the \<^verbatim>\<open>length\<close> of a string. The inherited properties of objects and of
  numbers and booleans are functions, which the configuration values here do not
  include: reading one gives \<^verbatim>\<open>undefined\<close> in this model. The code reads no property of
  \<^verbatim>\<open>null\<close> or \<^verbatim>\<open>undefined\<close> except through \<^verbatim>\<open>Object.keys\<close>, modelled below.
\<close>

fun property :: "heap \<Rightarrow> jsval \<Rightarrow> string \<Rightarrow> jsval" where
  "property h (JRef a) key =
     (case cell_at h a of
        None \<Rightarrow> JUndefined
      | Some c \<Rightarrow>
          (case map_of (cell_props c) key of
             Some v \<Rightarrow> v
           | None \<Rightarrow>
               (case c of
                  ObjCell ps \<Rightarrow> JUndefined
                | ArrCell vs \<Rightarrow>
                    if key = ''length'' then JNum (int (length vs)) else JUndefined)))"
| "property h (JStr s) key =
     (case map_of (zip (map string_of_nat [0..<length s]) s) key of
        Some c \<Rightarrow> JStr [c]
      | None \<Rightarrow> if key = ''length'' then JNum (int (length s)) else JUndefined)"
| "property h v key = JUndefined"

text \<open>
  \<^verbatim>\<open>key in Object(v)\<close>, which the lookup below asks only of a name that contains a dot or
  a bracket; no \<^verbatim>\<open>length\<close>, index or inherited name does.
\<close>

fun has_property :: "heap \<Rightarrow> jsval \<Rightarrow> string \<Rightarrow> bool" where
  "has_property h (JRef a) key =
     (case cell_at h a of None \<Rightarrow> False | Some c \<Rightarrow> map_of (cell_props c) key \<noteq> None)"
| "has_property h v key = False"

text \<open>\<^verbatim>\<open>v == null\<close>.\<close>

fun nullish :: "jsval \<Rightarrow> bool" where
  "nullish JUndefined = True"
| "nullish JNull = True"
| "nullish v = False"

subsection \<open>The library call \<^verbatim>\<open>get(obj, path)\<close>\<close>

text \<open>\<^verbatim>\<open>s.split(sep)\<close> for a separator of one character.\<close>

fun split :: "char \<Rightarrow> string \<Rightarrow> string list" where
  "split sep [] = [[]]"
| "split sep (c # cs) =
     (if c = sep then [] # split sep cs
      else (case split sep cs of [] \<Rightarrow> [[c]] | w # ws \<Rightarrow> (c # w) # ws))"

text \<open>
  Modelled from the spec: the package \<^verbatim>\<open>lodash.get\<close> is a dependency and its code is not
  among the sources. Section 4.2 of the specification calls the lookup "dotted-path
  resolution (supports nested access)"; the model follows the package (version 4) in what
  the resolver's calls can meet:
  \<^item> \<^verbatim>\<open>get\<close> of \<^verbatim>\<open>null\<close> or \<^verbatim>\<open>undefined\<close> is \<^verbatim>\<open>undefined\<close>;
  \<^item> the key \<^verbatim>\<open>undefined\<close>, which \<^verbatim>\<open>shift()\<close> gives for an empty array, is a key of its own: the
    property named \<^verbatim>\<open>"undefined"\<close> is read;
  \<^item> a string with no dot and no bracket is one key, and so is any string that is a
    property of \<^verbatim>\<open>obj\<close> itself: a key that contains dots wins over the nested lookup;
  \<^item> any other string is cut into keys (\<^verbatim>\<open>stringToPath\<close>) and the keys are followed one
    object at a time, giving \<^verbatim>\<open>undefined\<close> as soon as \<^verbatim>\<open>null\<close> or \<^verbatim>\<open>undefined\<close> is reached
    with keys left, and for no keys at all.
  \<^verbatim>\<open>stringToPath\<close> also reads brackets and quotes; it is a parameter (\<open>toPath\<close>), and for
  a string without brackets it is \<open>split CHR ''.''\<close>.
\<close>

fun descend :: "heap \<Rightarrow> jsval \<Rightarrow> string list \<Rightarrow> jsval" where
  "descend h v [] = v"
| "descend h v (key # keys) =
     (if nullish v then JUndefined else descend h (property h v key) keys)"

definition baseGet :: "heap \<Rightarrow> jsval \<Rightarrow> string list \<Rightarrow> jsval" where
  "baseGet h v keys = (if keys = [] then JUndefined else descend h v keys)"

definition deep :: "string \<Rightarrow> bool" where
  "deep p = (CHR ''.'' \<in> set p \<or> CHR ''['' \<in> set p)"

definition get :: "(string \<Rightarrow> string list) \<Rightarrow> heap \<Rightarrow> jsval \<Rightarrow> string option \<Rightarrow> jsval" where
  "get toPath h obj key =
     (if nullish obj then JUndefined
      else (case key of
              None \<Rightarrow> property h obj ''undefined''
            | Some p \<Rightarrow>
                if \<not> deep p \<or> has_property h obj p then property h obj p
                else baseGet h obj (toPath p)))"

subsection \<open>\<^verbatim>\<open>getFirstReplacementValueForNode\<close>\<close>

text \<open>\<^verbatim>\<open>a.shift()\<close> gives the first element, or \<^verbatim>\<open>undefined\<close> (\<open>None\<close>) for an empty array.\<close>

fun shift :: "'a list \<Rightarrow> 'a option" where
  "shift [] = None"
| "shift (x # xs) = Some x"

text \<open>
  \<^verbatim>\<open>
  const getFirstReplacementValueForNode = (obj, comparator, nodePath) => {
    const replacementKey = getSortedObjectPaths(obj)
      .filter((value) => comparator(nodePath, value))
      .shift();
    return get(obj, replacementKey) || null;
  };
  \<close>
\<close>

definition getFirstReplacementValueForNode ::
  "sort_fn \<Rightarrow> (string \<Rightarrow> string list) \<Rightarrow> heap \<Rightarrow> jsval \<Rightarrow> ('n \<Rightarrow> string \<Rightarrow> bool) \<Rightarrow> 'n
   \<Rightarrow> jsval" where
  "getFirstReplacementValueForNode srt toPath h obj comparator nodePath =
     (let replacementKey =
            shift (filter (\<lambda>v. comparator nodePath v) (getSortedObjectPaths srt h obj));
          found = get toPath h obj replacementKey
      in if truthy found then found else JNull)"

section \<open>The node rewriter\<close>

subsection \<open>Syntax trees and paths into them\<close>

text \<open>
  The node kinds of the Babel syntax tree that the plugin tells apart, and one kind for
  all the others. A \<^verbatim>\<open>NodePath\<close> is a node together with where it stands: the parent node
  around it (\<open>inside\<close>, a node with a hole) and the ancestors around the parent
  (\<open>above\<close>, innermost first). The nodes the plugin visits are expressions, so the
  path always has a parent.
\<close>

datatype ast =
    Identifier string
  | StringLiteral string
  | NumericLiteral int
  | BooleanLiteral bool
  | NullLiteral
  | MemberExpression ast ast bool
  | UnaryExpression string ast
  | BinaryExpression string ast ast
  | CallExpression ast "ast list"
  | OtherNode string "ast list"

datatype frame =
    MemberObject ast bool
  | MemberProperty ast bool
  | UnaryArgument string
  | BinaryLeft string ast
  | BinaryRight string ast
  | CallCallee "ast list"
  | CallArgument ast "ast list" "ast list"
  | OtherChild string "ast list" "ast list"

fun plug :: "frame \<Rightarrow> ast \<Rightarrow> ast" where
  "plug (MemberObject member computed) n = MemberExpression n member computed"
| "plug (MemberProperty object computed) n = MemberExpression object n computed"
| "plug (UnaryArgument operator) n = UnaryExpression operator n"
| "plug (BinaryLeft operator right) n = BinaryExpression operator n right"
| "plug (BinaryRight operator left) n = BinaryExpression operator left n"
| "plug (CallCallee arguments) n = CallExpression n arguments"
| "plug (CallArgument callee before after) n = CallExpression callee (before @ n # after)"
| "plug (OtherChild kind before after) n = OtherNode kind (before @ n # after)"

record nodePath =
  node :: ast
  inside :: frame
  above :: "frame list"

definition rebuild :: "frame list \<Rightarrow> ast \<Rightarrow> ast" where
  "rebuild frames n = foldl (\<lambda>inner f. plug f inner) n frames"

text \<open>The node of \<^verbatim>\<open>nodePath.parentPath\<close>, and the whole program around a path.\<close>

definition parentNode :: "nodePath \<Rightarrow> ast" where
  "parentNode np = plug (inside np) (node np)"

definition program :: "nodePath \<Rightarrow> ast" where
  "program np = rebuild (above np) (parentNode np)"

fun isBinaryExpression :: "ast \<Rightarrow> bool" where
  "isBinaryExpression (BinaryExpression operator left right) = True"
| "isBinaryExpression n = False"

text \<open>\<^verbatim>\<open>n.name\<close>: only an identifier has the field; of any other node it is \<^verbatim>\<open>undefined\<close>.\<close>

fun name_of :: "ast \<Rightarrow> string option" where
  "name_of (Identifier name) = Some name"
| "name_of n = None"

subsection \<open>What the plugin takes from Node.js and from Babel\<close>

text \<open>
  The engine's sort, \<^verbatim>\<open>lodash\<close>'s \<^verbatim>\<open>stringToPath\<close>, the working directory, \<^verbatim>\<open>path.join\<close>,
  \<^verbatim>\<open>fs.accessSync\<close> (which throws or returns nothing), \<^verbatim>\<open>require\<close> (which throws or gives
  the module's value), and of Babel \<^verbatim>\<open>t.valueToNode\<close>, \<^verbatim>\<open>path.evaluate\<close>,
  \<^verbatim>\<open>path.replaceWith\<close> and \<^verbatim>\<open>path.matchesPattern\<close>. Each of Babel's three may throw:
  \<^verbatim>\<open>valueToNode\<close> and \<^verbatim>\<open>evaluate\<close> give an exception or a result, and \<open>refuses\<close> says
  what \<^verbatim>\<open>replaceWith\<close> throws, if anything, when a node is to stand in a place (the
  parent around it). \<open>Error e\<close> is \<^verbatim>\<open>new Error(e)\<close>.
\<close>

datatype exn = TypeError | RangeError | SystemError string | Error exn

text \<open>What \<^verbatim>\<open>path.evaluate()\<close> answers: \<^verbatim>\<open>{ confident, value }\<close>.\<close>

record evaluation =
  confident :: bool
  evaluated :: jsval

record host =
  Array_sort :: sort_fn
  stringToPath :: "string \<Rightarrow> string list"
  cwd :: string
  path_join :: "string \<Rightarrow> string \<Rightarrow> string"
  accessSync :: "string \<Rightarrow> exn option"
  require :: "string \<Rightarrow> exn + jsval"
  valueToNode :: "heap \<Rightarrow> jsval \<Rightarrow> exn + ast"
  evaluate :: "ast \<Rightarrow> exn + evaluation"
  refuses :: "frame \<Rightarrow> ast \<Rightarrow> exn option"
  matchesPattern :: "ast \<Rightarrow> string \<Rightarrow> bool"

subsection \<open>\<^verbatim>\<open>getReplacements\<close>\<close>

fun typeof :: "jsval \<Rightarrow> string" where
  "typeof JUndefined = ''undefined''"
| "typeof JNull = ''object''"
| "typeof (JBool b) = ''boolean''"
| "typeof (JNum n) = ''number''"
| "typeof JNaN = ''number''"
| "typeof (JStr s) = ''string''"
| "typeof (JRef a) = ''object''"

text \<open>
  \<^verbatim>\<open>
  const getReplacements = (configOptions) => {
    if (typeof configOptions === "object") { return configOptions; }
    try {
      const fullPath = path.join(process.cwd(), configOptions);
      fs.accessSync(fullPath, fs.F_OK);
      return require(fullPath);
    } catch (err) {
      console.error(`The nodePath: ${configOptions} is not valid.`);
      throw new Error(err);
    }
  };
  \<close>
  \<^verbatim>\<open>path.join\<close> throws a \<^verbatim>\<open>TypeError\<close> for an argument that is not a string. The line
  written to the console is left out.
\<close>

definition getReplacements :: "host \<Rightarrow> jsval \<Rightarrow> exn + jsval" where
  "getReplacements env configOptions =
     (if typeof configOptions = ''object'' then Inr configOptions
      else (case configOptions of
              JStr p \<Rightarrow>
                (let fullPath = path_join env (cwd env) p
                 in case accessSync env fullPath of
                      Some err \<Rightarrow> Inl (Error err)
                    | None \<Rightarrow>
                        (case require env fullPath of
                           Inl err \<Rightarrow> Inl (Error err)
                         | Inr loaded \<Rightarrow> Inr loaded))
            | _ \<Rightarrow> Inl (Error TypeError)))"

subsection \<open>\<^verbatim>\<open>replaceAndEvaluateNode\<close> and \<^verbatim>\<open>processNode\<close>\<close>

text \<open>
  \<^verbatim>\<open>
  const replaceAndEvaluateNode = (replaceFn, nodePath, replacement) => {
    nodePath.replaceWith(replaceFn(replacement));
    if (nodePath.parentPath.isBinaryExpression()) {
      const result = nodePath.parentPath.evaluate();
      if (result.confident) {
        nodePath.parentPath.replaceWith(replaceFn(result.value));
      }
    }
  };
  \<close>
  The function catches nothing: what \<^verbatim>\<open>replaceFn\<close>, \<^verbatim>\<open>replaceWith\<close> or \<^verbatim>\<open>evaluate\<close> throws
  ends it. It gives the exception, or the program as the replacements leave it. The
  place of the parent is the innermost ancestor; a parent with nothing above it is
  replaced unchecked.
\<close>

definition refuses_above :: "host \<Rightarrow> frame list \<Rightarrow> ast \<Rightarrow> exn option" where
  "refuses_above env frames n = (case frames of [] \<Rightarrow> None | f # _ \<Rightarrow> refuses env f n)"

definition replaceAndEvaluateNode ::
  "host \<Rightarrow> (jsval \<Rightarrow> exn + ast) \<Rightarrow> nodePath \<Rightarrow> jsval \<Rightarrow> exn + ast" where
  "replaceAndEvaluateNode env replaceFn nodePath replacement =
     (case replaceFn replacement of
        Inl err \<Rightarrow> Inl err
      | Inr n \<Rightarrow>
          (case refuses env (inside nodePath) n of
             Some err \<Rightarrow> Inl err
           | None \<Rightarrow>
               (let replaced = nodePath\<lparr>node := n\<rparr>
                in if isBinaryExpression (parentNode replaced)
                   then (case evaluate env (parentNode replaced) of
                           Inl err \<Rightarrow> Inl err
                         | Inr result \<Rightarrow>
                             if confident result
                             then (case replaceFn (evaluated result) of
                                     Inl err \<Rightarrow> Inl err
                                   | Inr literal \<Rightarrow>
                                       (case refuses_above env (above replaced) literal of
                                          Some err \<Rightarrow> Inl err
                                        | None \<Rightarrow> Inr (rebuild (above replaced) literal)))
                             else Inr (program replaced))
                   else Inr (program replaced))))"

text \<open>
  \<^verbatim>\<open>
  const processNode = (replacements, nodePath, replaceFn, comparator) => {
    const replacement = getFirstReplacementValueForNode(replacements, comparator, nodePath);
    if (replacement) {
      replaceAndEvaluateNode(replaceFn, nodePath, replacement);
    }
  };
  \<close>
\<close>

definition processNode ::
  "host \<Rightarrow> heap \<Rightarrow> jsval \<Rightarrow> nodePath \<Rightarrow> (jsval \<Rightarrow> exn + ast)
   \<Rightarrow> (nodePath \<Rightarrow> string \<Rightarrow> bool) \<Rightarrow> exn + ast" where
  "processNode env h replacements nodePath replaceFn comparator =
     (let replacement = getFirstReplacementValueForNode (Array_sort env) (stringToPath env)
                          h replacements comparator nodePath
      in if truthy replacement
         then replaceAndEvaluateNode env replaceFn nodePath replacement
         else Inr (program nodePath))"

subsection \<open>The comparators\<close>

text \<open>
  \<^verbatim>\<open>
  const memberExpressionComparator = (nodePath, value) => nodePath.matchesPattern(value);
  const identifierComparator = (nodePath, value) => nodePath.node.name === value;
  const unaryExpressionComparator = (nodePath, value) => nodePath.node.argument.name === value;
  \<close>
  \<^verbatim>\<open>node.argument\<close> is read only of a \<^verbatim>\<open>UnaryExpression\<close>, the one kind of node the last
  comparator is called on.
\<close>

definition memberExpressionComparator :: "host \<Rightarrow> nodePath \<Rightarrow> string \<Rightarrow> bool" where
  "memberExpressionComparator env nodePath v = matchesPattern env (node nodePath) v"

definition identifierComparator :: "nodePath \<Rightarrow> string \<Rightarrow> bool" where
  "identifierComparator nodePath v = (name_of (node nodePath) = Some v)"

fun argument_name :: "ast \<Rightarrow> string option" where
  "argument_name (UnaryExpression operator argument) = name_of argument"
| "argument_name n = None"

definition unaryExpressionComparator :: "nodePath \<Rightarrow> string \<Rightarrow> bool" where
  "unaryExpressionComparator nodePath v = (argument_name (node nodePath) = Some v)"

subsection \<open>The visitors\<close>

text \<open>
  \<^verbatim>\<open>
  MemberExpression(nodePath, state) {
    processNode(getReplacements(state.opts), nodePath, t.valueToNode, memberExpressionComparator);
  },
  Identifier(nodePath, state) {
    processNode(getReplacements(state.opts), nodePath, t.valueToNode, identifierComparator);
  },
  \<close>
  A visitor gives the program as it leaves it, or the exception it throws.
\<close>

definition visit_MemberExpression :: "host \<Rightarrow> heap \<Rightarrow> jsval \<Rightarrow> nodePath \<Rightarrow> exn + ast" where
  "visit_MemberExpression env h opts nodePath =
     (case getReplacements env opts of
        Inl err \<Rightarrow> Inl err
      | Inr replacements \<Rightarrow>
          processNode env h replacements nodePath (valueToNode env h)
            (memberExpressionComparator env))"

definition visit_Identifier :: "host \<Rightarrow> heap \<Rightarrow> jsval \<Rightarrow> nodePath \<Rightarrow> exn + ast" where
  "visit_Identifier env h opts nodePath =
     (case getReplacements env opts of
        Inl err \<Rightarrow> Inl err
      | Inr replacements \<Rightarrow>
          processNode env h replacements nodePath (valueToNode env h) identifierComparator)"

text \<open>
  \<^verbatim>\<open>Object.keys(v)\<close> throws for \<^verbatim>\<open>null\<close> and \<^verbatim>\<open>undefined\<close>, lists the indices of a string
  and nothing for another primitive.
\<close>

fun Object_keys :: "heap \<Rightarrow> jsval \<Rightarrow> exn + string list" where
  "Object_keys h JUndefined = Inl TypeError"
| "Object_keys h JNull = Inl TypeError"
| "Object_keys h (JStr s) = Inr (map string_of_nat [0..<length s])"
| "Object_keys h (JRef a) =
     (case cell_at h a of None \<Rightarrow> Inr [] | Some c \<Rightarrow> Inr (map fst (cell_props c)))"
| "Object_keys h v = Inr []"

text \<open>
  \<^verbatim>\<open>o[key] = v\<close> on the property list of \<^verbatim>\<open>o\<close>: a new key goes to the end. (JavaScript
  lists keys that are array indices before the others; the order of a property list
  only decides the order in which paths are enumerated.)
\<close>

fun assign :: "props \<Rightarrow> string \<Rightarrow> jsval \<Rightarrow> props" where
  "assign [] key v = [(key, v)]"
| "assign ((k, w) # ps) key v = (if k = key then (k, v) # ps else (k, w) # assign ps key v)"

text \<open>
  \<^verbatim>\<open>
  const typeofValues = {};
  keys.forEach((key) => {
    if (key.substring(0, 7) === "typeof ") {
      typeofValues[key.substring(7)] = replacements[key];
    }
  });
  \<close>
\<close>

definition typeofValues :: "heap \<Rightarrow> jsval \<Rightarrow> string list \<Rightarrow> props" where
  "typeofValues h replacements keys =
     foldl (\<lambda>tv key. if take 7 key = ''typeof ''
                      then assign tv (drop 7 key) (property h replacements key)
                      else tv)
           [] keys"

text \<open>
  \<^verbatim>\<open>
  UnaryExpression(nodePath, state) {
    if (nodePath.node.operator !== "typeof") { return; }
    const replacements = getReplacements(state.opts);
    const keys = Object.keys(replacements);
    ...
    processNode(typeofValues, nodePath, t.valueToNode, unaryExpressionComparator);
  }
  \<close>
  The object \<^verbatim>\<open>typeofValues\<close> is new: it takes the next free cell of the heap.
\<close>

definition visit_UnaryExpression :: "host \<Rightarrow> heap \<Rightarrow> jsval \<Rightarrow> nodePath \<Rightarrow> exn + ast" where
  "visit_UnaryExpression env h opts nodePath =
     (case node nodePath of
        UnaryExpression operator argument \<Rightarrow>
          if operator \<noteq> ''typeof'' then Inr (program nodePath)
          else (case getReplacements env opts of
                  Inl err \<Rightarrow> Inl err
                | Inr replacements \<Rightarrow>
                    (case Object_keys h replacements of
                       Inl err \<Rightarrow> Inl err
                     | Inr keys \<Rightarrow>
                         (let h' = h @ [ObjCell (typeofValues h replacements keys)]
                          in processNode env h' (JRef (length h)) nodePath
                               (valueToNode env h') unaryExpressionComparator)))
      | _ \<Rightarrow> Inr (program nodePath))"

section \<open>The arrays the resolver builds\<close>

text \<open>
  \<^verbatim>\<open>.map()\<close> and \<^verbatim>\<open>.filter()\<close> give new arrays, \<^verbatim>\<open>.sort()\<close> sorts the array it is
  called on and returns it, and \<^verbatim>\<open>.shift()\<close> removes the first element of the array it
  is called on. To state what the two functions of the resolver write, this section
  gives them again with the heap passed through: the array that is sorted and the
  array that is shifted are cells of the same heap as the configuration, and the
  functions return the heap as they leave it. (The arrays that are only read, those
  of \<^verbatim>\<open>paths()\<close> and of the first \<^verbatim>\<open>filter\<close>, stay lists.)
\<close>

definition alloc :: "heap \<Rightarrow> cell \<Rightarrow> addr \<times> heap" where
  "alloc h c = (length h, h @ [c])"

text \<open>The elements of the array at an address, and the strings among some elements.\<close>

definition Array_elements :: "heap \<Rightarrow> addr \<Rightarrow> jsval list" where
  "Array_elements h a = (case cell_at h a of Some (ArrCell vs) \<Rightarrow> vs | _ \<Rightarrow> [])"

fun strings :: "jsval list \<Rightarrow> string list" where
  "strings [] = []"
| "strings (JStr s # vs) = s # strings vs"
| "strings (v # vs) = strings vs"

definition sort_in_place :: "sort_fn \<Rightarrow> (string \<Rightarrow> string \<Rightarrow> int) \<Rightarrow> heap \<Rightarrow> addr \<Rightarrow> heap" where
  "sort_in_place srt comparefn h a =
     h[a := ArrCell (map JStr (srt comparefn (strings (Array_elements h a))))]"

definition shift_in_place :: "heap \<Rightarrow> addr \<Rightarrow> jsval option \<times> heap" where
  "shift_in_place h a =
     (case Array_elements h a of
        [] \<Rightarrow> (None, h)
      | v # vs \<Rightarrow> (Some v, h[a := ArrCell vs]))"

fun key_of :: "jsval option \<Rightarrow> string option" where
  "key_of (Some (JStr s)) = Some s"
| "key_of v = None"

text \<open>
  \<open>getSortedObjectPaths\<close>: the result of \<^verbatim>\<open>.map()\<close> takes a new cell, which
  \<^verbatim>\<open>.sort()\<close> then overwrites; the function returns the address of that array.
\<close>

definition getSortedObjectPaths_heap :: "sort_fn \<Rightarrow> heap \<Rightarrow> jsval \<Rightarrow> addr \<times> heap" where
  "getSortedObjectPaths_heap srt h obj =
     (if \<not> truthy obj then alloc h (ArrCell [])
      else (let (mapped, h1) =
                  alloc h (ArrCell (map JStr (map (join ''.'')
                                     (filter (\<lambda>arr. length arr \<noteq> 0) (paths h obj)))))
            in (mapped, sort_in_place srt (\<lambda>elem _. int (length elem)) h1 mapped)))"

text \<open>
  \<open>getFirstReplacementValueForNode\<close>: the result of \<^verbatim>\<open>.filter()\<close> takes a new cell,
  which \<^verbatim>\<open>.shift()\<close> then overwrites; \<^verbatim>\<open>get\<close> reads the heap as it is by then.
\<close>

definition getFirstReplacementValueForNode_heap ::
  "sort_fn \<Rightarrow> (string \<Rightarrow> string list) \<Rightarrow> heap \<Rightarrow> jsval \<Rightarrow> ('n \<Rightarrow> string \<Rightarrow> bool) \<Rightarrow> 'n
   \<Rightarrow> jsval \<times> heap" where
  "getFirstReplacementValueForNode_heap srt toPath h obj comparator nodePath =
     (let (sortedPaths, h1) = getSortedObjectPaths_heap srt h obj;
          (filtered, h2) =
             alloc h1 (ArrCell (map JStr (filter (\<lambda>v. comparator nodePath v)
                                           (strings (Array_elements h1 sortedPaths)))));
          (replacementKey, h3) = shift_in_place h2 filtered;
          found = get toPath h3 obj (key_of replacementKey)
      in (if truthy found then found else JNull, h3))"

section \<open>A host for the examples\<close>

text \<open>
  The examples below run the plugin with a small host: \<^verbatim>\<open>valueToNode\<close> on primitive
  values; a static evaluation that knows \<^verbatim>\<open>===\<close> on two string literals and \<^verbatim>\<open>+\<close> on
  two numeric literals; a \<^verbatim>\<open>replaceWith\<close> that refuses, as Babel's check of a member
  expression does, a property that is not an identifier where the member expression
  is not computed; \<^verbatim>\<open>matchesPattern\<close> on chains of identifiers; the older V8's sort;
  paths cut at dots; and a file system that holds the one module
  \<^verbatim>\<open>/project/defs.js\<close>, whose value is the object in cell 0.
\<close>

fun sample_valueToNode :: "heap \<Rightarrow> jsval \<Rightarrow> exn + ast" where
  "sample_valueToNode h JUndefined = Inr (Identifier ''undefined'')"
| "sample_valueToNode h JNull = Inr NullLiteral"
| "sample_valueToNode h (JBool b) = Inr (BooleanLiteral b)"
| "sample_valueToNode h (JNum n) = Inr (NumericLiteral n)"
| "sample_valueToNode h JNaN = Inr (Identifier ''NaN'')"
| "sample_valueToNode h (JStr s) = Inr (StringLiteral s)"
| "sample_valueToNode h (JRef a) = Inr (OtherNode ''ObjectExpression'' [])"

definition unknown :: evaluation where
  "unknown = \<lparr>confident = False, evaluated = JUndefined\<rparr>"

fun sample_evaluate :: "ast \<Rightarrow> exn + evaluation" where
  "sample_evaluate (BinaryExpression operator (StringLiteral a) (StringLiteral b)) =
     Inr (if operator = ''==='' then \<lparr>confident = True, evaluated = JBool (a = b)\<rparr>
          else unknown)"
| "sample_evaluate (BinaryExpression operator (NumericLiteral a) (NumericLiteral b)) =
     Inr (if operator = ''+'' then \<lparr>confident = True, evaluated = JNum (a + b)\<rparr>
          else unknown)"
| "sample_evaluate n = Inr unknown"

fun sample_refuses :: "frame \<Rightarrow> ast \<Rightarrow> exn option" where
  "sample_refuses (MemberProperty object False) (Identifier name) = None"
| "sample_refuses (MemberProperty object False) n = Some TypeError"
| "sample_refuses f n = None"

fun dotted :: "ast \<Rightarrow> string option" where
  "dotted (Identifier name) = Some name"
| "dotted (MemberExpression object member computed) =
     (case (dotted object, member, computed) of
        (Some prefix, Identifier name, False) \<Rightarrow> Some (prefix @ ''.'' @ name)
      | _ \<Rightarrow> None)"
| "dotted n = None"

fun sample_matchesPattern :: "ast \<Rightarrow> string \<Rightarrow> bool" where
  "sample_matchesPattern (MemberExpression object member computed) pattern =
     (dotted (MemberExpression object member computed) = Some pattern)"
| "sample_matchesPattern n pattern = False"

definition sample_host :: host where
  "sample_host =
     \<lparr>Array_sort = InsertionSort,
      stringToPath = split CHR ''.'',
      cwd = ''/project'',
      path_join = (\<lambda>dir file. dir @ ''/'' @ file),
      accessSync = (\<lambda>file. if file = ''/project/defs.js'' then None
                             else Some (SystemError ''ENOENT'')),
      require = (\<lambda>file. Inr (JRef 0)),
      valueToNode = sample_valueToNode,
      evaluate = sample_evaluate,
      refuses = sample_refuses,
      matchesPattern = sample_matchesPattern\<rparr>"

section \<open>What the specification says, as predicates\<close>

text \<open>A list of path strings is in descending order of length.\<close>

definition descending_by_length :: "string list \<Rightarrow> bool" where
  "descending_by_length ps = sorted_wrt (\<lambda>p q. length q \<le> length p) ps"

text \<open>A binary expression whose operator compares its operands.\<close>

definition comparison_operators :: "string list" where
  "comparison_operators = [''=='', ''==='', ''!='', ''!=='', ''<'', ''<='', ''>'', ''>='']"

fun isBinaryComparison :: "ast \<Rightarrow> bool" where
  "isBinaryComparison (BinaryExpression operator left right) =
     (operator \<in> set comparison_operators)"
| "isBinaryComparison n = False"

text \<open>
  The location that a key path leads to from a value, if there is one, and the objects
  that the path descends into on its way (the objects at its proper prefixes).
\<close>

fun resolve :: "heap \<Rightarrow> jsval \<Rightarrow> string list \<Rightarrow> jsval option" where
  "resolve h v [] = Some v"
| "resolve h (JRef a) (key # keys) =
     (case cell_at h a of
        None \<Rightarrow> None
      | Some c \<Rightarrow>
          (case map_of (cell_props c) key of
             None \<Rightarrow> None
           | Some child \<Rightarrow> resolve h child keys))"
| "resolve h v (key # keys) = None"

fun trail :: "heap \<Rightarrow> jsval \<Rightarrow> string list \<Rightarrow> addr list" where
  "trail h v [] = []"
| "trail h (JRef a) (key # keys) =
     (case cell_at h a of
        None \<Rightarrow> []
      | Some c \<Rightarrow>
          (case map_of (cell_props c) key of
             None \<Rightarrow> []
           | Some child \<Rightarrow> a # trail h child keys))"
| "trail h v (key # keys) = []"

text \<open>A value is an object of the heap that is among the objects \<open>seen\<close>.\<close>

fun met_again :: "heap \<Rightarrow> addr list \<Rightarrow> jsval \<Rightarrow> bool" where
  "met_again h seen (JRef a) = (a < length h \<and> a \<in> set seen)"
| "met_again h seen v = False"

text \<open>Each key of a JavaScript object or array stands once in its property list.\<close>

definition wf_heap :: "heap \<Rightarrow> bool" where
  "wf_heap h = list_all (\<lambda>c. distinct (map fst (cell_props c))) h"

text \<open>
  A configuration is non-cyclic when no key path from it reaches an object that the
  path has descended into. \<open>circular_free\<close> is the same, read off the walk: no
  visit was marked circular.
\<close>

definition acyclic_config :: "heap \<Rightarrow> jsval \<Rightarrow> bool" where
  "acyclic_config h obj =
     (\<forall>ks a. resolve h obj ks = Some (JRef a) \<longrightarrow> a < length h \<longrightarrow> a \<notin> set (trail h obj ks))"

definition circular_free :: "heap \<Rightarrow> jsval \<Rightarrow> bool" where
  "circular_free h obj = list_all (\<lambda>(p, circ). \<not> circ) (walker h [] [] obj)"

text \<open>An engine's sort returns the elements it was given, each as often.\<close>

definition permuting :: "sort_fn \<Rightarrow> bool" where
  "permuting srt = (\<forall>comparefn a. mset (srt comparefn a) = mset a)"

text \<open>No key of any object contains a dot.\<close>

definition dotfree_heap :: "heap \<Rightarrow> bool" where
  "dotfree_heap h = list_all (\<lambda>c. list_all (\<lambda>(k, v). CHR ''.'' \<notin> set k) (cell_props c)) h"

text \<open>
  A heap without dangling references: every reference stored in a cell is the address
  of a cell.
\<close>

fun ref_ok :: "heap \<Rightarrow> jsval \<Rightarrow> bool" where
  "ref_ok h (JRef a) = (a < length h)"
| "ref_ok h v = True"

definition closed_heap :: "heap \<Rightarrow> bool" where
  "closed_heap h = list_all (\<lambda>c. list_all (\<lambda>(k, v). ref_ok h v) (cell_props c)) h"

section \<open>The engines' sorts\<close>

lemma mset_shift_in: "mset (shift_in comparefn element front) = add_mset element (mset front)"
  by (induction front) auto

lemma mset_foldl_shift_in:
  "mset (foldl (\<lambda>front element. shift_in comparefn element front) acc a) = mset acc + mset a"
  by (induction a arbitrary: acc) (auto simp: mset_shift_in)

lemma mset_InsertionSort: "mset (InsertionSort comparefn a) = mset a"
  by (simp add: InsertionSort_def mset_foldl_shift_in)

lemma mset_unchanged_sort: "mset (unchanged_sort comparefn a) = mset a"
  by (simp add: unchanged_sort_def)

text \<open>
  With a function that answers a positive number for every pair, the insertion sort
  moves each element in front of all the elements before it: the array ends reversed.
\<close>

lemma shift_in_positive:
  "\<forall>x \<in> set front. comparefn x element > 0 \<Longrightarrow> shift_in comparefn element front = front @ [element]"
  by (induction front) auto

lemma foldl_shift_in_positive:
  "\<forall>x \<in> set (acc @ a). \<forall>y. comparefn x y > 0 \<Longrightarrow>
   foldl (\<lambda>front element. shift_in comparefn element front) acc a = acc @ a"
proof (induction a arbitrary: acc)
  case Nil
  then show ?case by simp
next
  case (Cons e a)
  have "shift_in comparefn e acc = acc @ [e]"
    using Cons.prems by (intro shift_in_positive) simp
  moreover have "foldl (\<lambda>front element. shift_in comparefn element front) (acc @ [e]) a
      = (acc @ [e]) @ a"
    using Cons.prems by (intro Cons.IH) simp
  ultimately show ?case by simp
qed

lemma InsertionSort_positive:
  "\<forall>x \<in> set a. \<forall>y. comparefn x y > 0 \<Longrightarrow> InsertionSort comparefn a = rev a"
  using foldl_shift_in_positive [of "[]" a comparefn] by (simp add: InsertionSort_def)

section \<open>The path enumerator: order of the result\<close>

text \<open>
  C1 (the result is in descending order of path length, a deeper path before its
  ancestor). The function given to \<^verbatim>\<open>sort\<close> compares nothing, so the order is the
  engine's. For the configuration \<^verbatim>\<open>{ a: 1, bbb: 2, c: 3 }\<close> the insertion sort of the
  older V8 gives \<^verbatim>\<open>["c", "bbb", "a"]\<close> and an engine that keeps the array gives
  \<^verbatim>\<open>["a", "bbb", "c"]\<close>; neither is in descending order of length. For the example of
  the function's own comment, \<^verbatim>\<open>{ process: { env: { NODE_ENV: "development" } } }\<close>,
  the older V8 gives the order the comment shows and an engine that keeps the array
  gives the ancestors first.
\<close>

theorem getSortedObjectPaths_not_by_length:
  "getSortedObjectPaths InsertionSort
     [ObjCell [(''a'', JNum 1), (''bbb'', JNum 2), (''c'', JNum 3)]] (JRef 0)
     = [''c'', ''bbb'', ''a'']
   \<and> \<not> descending_by_length [''c'', ''bbb'', ''a'']
   \<and> getSortedObjectPaths unchanged_sort
     [ObjCell [(''a'', JNum 1), (''bbb'', JNum 2), (''c'', JNum 3)]] (JRef 0)
     = [''a'', ''bbb'', ''c'']
   \<and> \<not> descending_by_length [''a'', ''bbb'', ''c'']
   \<and> getSortedObjectPaths InsertionSort
     [ObjCell [(''process'', JRef 1)], ObjCell [(''env'', JRef 2)],
      ObjCell [(''NODE_ENV'', JStr ''development'')]] (JRef 0)
     = [''process.env.NODE_ENV'', ''process.env'', ''process'']
   \<and> getSortedObjectPaths unchanged_sort
     [ObjCell [(''process'', JRef 1)], ObjCell [(''env'', JRef 2)],
      ObjCell [(''NODE_ENV'', JStr ''development'')]] (JRef 0)
     = [''process'', ''process.env'', ''process.env.NODE_ENV'']
   \<and> \<not> descending_by_length [''process'', ''process.env'', ''process.env.NODE_ENV'']"
  by (simp add: getSortedObjectPaths_def paths_def cell_at_def InsertionSort_def
      unchanged_sort_def descending_by_length_def)

section \<open>The path enumerator: the paths it lists\<close>

text \<open>
  The walk lists exactly the key paths that lead somewhere and never descend into an
  object twice, and marks as circular those that end at an object they descended into
  (or at one of \<open>parents\<close>).
\<close>

lemma wf_heap_cell: "wf_heap h \<Longrightarrow> cell_at h a = Some c \<Longrightarrow> distinct (map fst (cell_props c))"
  by (auto simp: wf_heap_def cell_at_def list_all_iff split: if_splits)

lemma met_again_cong: "set seen = set seen' \<Longrightarrow> met_again h seen v = met_again h seen' v"
  by (cases v) auto

lemma walker_complete:
  "resolve h v ks = Some x \<Longrightarrow> distinct (trail h v ks) \<Longrightarrow> set (trail h v ks) \<inter> set parents = {}
   \<Longrightarrow> (path @ ks, met_again h (parents @ trail h v ks) x) \<in> set (walker h parents path v)"
proof (induction ks arbitrary: v parents path)
  case Nil
  then show ?case
    by (cases v) (auto simp: cell_at_def split: option.splits)
next
  case (Cons key ks)
  from Cons.prems(1) obtain a c child where v: "v = JRef a" and c: "cell_at h a = Some c"
    and child: "map_of (cell_props c) key = Some child" and x: "resolve h child ks = Some x"
    by (cases v) (auto split: option.splits)
  from v c child have tr: "trail h v (key # ks) = a # trail h child ks"
    by simp
  with Cons.prems have fresh: "a \<notin> set parents" and d: "distinct (trail h child ks)"
    and disj: "set (trail h child ks) \<inter> set (a # parents) = {}"
    by auto
  have "((path @ [key]) @ ks, met_again h ((a # parents) @ trail h child ks) x)
        \<in> set (walker h (a # parents) (path @ [key]) child)"
    using x d disj by (rule Cons.IH)
  moreover have "met_again h ((a # parents) @ trail h child ks) x
      = met_again h (parents @ trail h v (key # ks)) x"
    by (rule met_again_cong) (simp only: tr, auto)
  moreover have "(key, child) \<in> set (cell_props c)"
    using child by (rule map_of_SomeD)
  ultimately show ?case
    using v c fresh by force
qed

lemma walker_sound:
  "wf_heap h \<Longrightarrow> (p, circ) \<in> set (walker h parents path v) \<Longrightarrow>
   \<exists>ks x. p = path @ ks \<and> resolve h v ks = Some x \<and> distinct (trail h v ks)
     \<and> set (trail h v ks) \<inter> set parents = {}
     \<and> circ = met_again h (parents @ trail h v ks) x"
proof (induction h parents path v arbitrary: p circ rule: walker.induct)
  case (1 h parents path a)
  show ?case
  proof (cases "cell_at h a")
    case None
    with 1 show ?thesis
      by (auto simp: cell_at_def intro!: exI [of _ "[]"] split: if_splits)
  next
    case (Some c)
    show ?thesis
    proof (cases "a \<in> set parents")
      case True
      with Some 1 show ?thesis
        by (auto simp: cell_at_def intro!: exI [of _ "[]"] split: if_splits)
    next
      case False
      from 1(3) Some False consider "p = path" "circ = False"
        | key child where "(key, child) \<in> set (cell_props c)"
            "(p, circ) \<in> set (walker h (a # parents) (path @ [key]) child)"
        by auto
      then show ?thesis
      proof cases
        case 1
        with False show ?thesis
          by (auto intro!: exI [of _ "[]"])
      next
        case 2
        from 1(1) [OF Some False 2(1) refl 1(2) 2(2)]
        obtain ks x where ks: "p = (path @ [key]) @ ks" "resolve h child ks = Some x"
          "distinct (trail h child ks)" "set (trail h child ks) \<inter> set (a # parents) = {}"
          "circ = met_again h ((a # parents) @ trail h child ks) x"
          by blast
        have lookup: "map_of (cell_props c) key = Some child"
          using wf_heap_cell [OF 1(2) Some] 2(1) by simp
        then have tr: "trail h (JRef a) (key # ks) = a # trail h child ks"
          using Some by simp
        have "met_again h ((a # parents) @ trail h child ks) x
            = met_again h (parents @ trail h (JRef a) (key # ks)) x"
          by (rule met_again_cong) (simp only: tr, auto)
        with ks lookup Some tr False show ?thesis
          by (intro exI [of _ "key # ks"] exI [of _ x]) auto
      qed
    qed
  qed
qed (auto intro!: exI [of _ "[]"])


lemma paths_iff:
  assumes "wf_heap h"
  shows "ks \<in> set (paths h obj) \<longleftrightarrow> resolve h obj ks \<noteq> None \<and> distinct (trail h obj ks)"
proof
  assume "ks \<in> set (paths h obj)"
  then obtain circ where "(ks, circ) \<in> set (walker h [] [] obj)"
    by (auto simp: paths_def)
  from walker_sound [OF assms this] show "resolve h obj ks \<noteq> None \<and> distinct (trail h obj ks)"
    by auto
next
  assume "resolve h obj ks \<noteq> None \<and> distinct (trail h obj ks)"
  then obtain x where "resolve h obj ks = Some x" and "distinct (trail h obj ks)"
    by auto
  from walker_complete [OF this, of "[]" "[]"] show "ks \<in> set (paths h obj)"
    by (force simp: paths_def)
qed

lemma resolve_append:
  "resolve h v (ks @ ks') = (case resolve h v ks of None \<Rightarrow> None | Some x \<Rightarrow> resolve h x ks')"
proof (induction ks arbitrary: v)
  case Nil
  then show ?case by simp
next
  case (Cons key ks)
  then show ?case
    by (cases v) (auto split: option.splits)
qed

lemma trail_append:
  "resolve h v ks = Some x \<Longrightarrow> trail h v (ks @ ks') = trail h v ks @ trail h x ks'"
proof (induction ks arbitrary: v)
  case Nil
  then show ?case by simp
next
  case (Cons key ks)
  then show ?case
    by (cases v) (auto split: option.splits)
qed

lemma trail_length: "resolve h v ks = Some x \<Longrightarrow> length (trail h v ks) = length ks"
proof (induction ks arbitrary: v)
  case Nil
  then show ?case by simp
next
  case (Cons key ks)
  then show ?case
    by (cases v) (auto split: option.splits)
qed

lemma trail_in_heap: "a \<in> set (trail h v ks) \<Longrightarrow> a < length h"
proof (induction ks arbitrary: v)
  case Nil
  then show ?case by simp
next
  case (Cons key ks)
  then show ?case
    by (cases v) (auto simp: cell_at_def split: option.splits if_splits)
qed

lemma depth_bound:
  assumes "resolve h v ks = Some x" and "distinct (trail h v ks)"
  shows "length ks \<le> length h"
proof -
  have "set (trail h v ks) \<subseteq> {..<length h}"
    using trail_in_heap by auto
  then have "card (set (trail h v ks)) \<le> card {..<length h}"
    by (intro card_mono) auto
  with assms show ?thesis
    by (simp add: distinct_card trail_length)
qed


text \<open>No path is listed twice.\<close>

lemma walker_paths_extend:
  "(p, circ) \<in> set (walker h parents path v) \<Longrightarrow> \<exists>ks. p = path @ ks"
proof (induction h parents path v arbitrary: p circ rule: walker.induct)
  case (1 h parents path a)
  show ?case
  proof (cases "cell_at h a")
    case None
    with 1(2) show ?thesis by simp
  next
    case (Some c)
    show ?thesis
    proof (cases "a \<in> set parents")
      case True
      with Some 1(2) show ?thesis by simp
    next
      case False
      from 1(2) Some False consider "p = path"
        | key child where "(key, child) \<in> set (cell_props c)"
            "(p, circ) \<in> set (walker h (a # parents) (path @ [key]) child)"
        by auto
      then show ?thesis
      proof cases
        case 1
        then show ?thesis by simp
      next
        case 2
        from 1(1) [OF Some False 2(1) refl 2(2)] show ?thesis
          by auto
      qed
    qed
  qed
qed auto

lemma distinct_concat_by_key:
  assumes "distinct (map fst ps)"
    and "\<And>k c. (k, c) \<in> set ps \<Longrightarrow> distinct (f k c)"
    and "\<And>k c p. (k, c) \<in> set ps \<Longrightarrow> p \<in> set (f k c) \<Longrightarrow> \<exists>ks. p = path @ k # ks"
  shows "distinct (concat (map (\<lambda>(k, c). f k c) ps))"
  using assms
proof (induction ps)
  case Nil
  then show ?case by simp
next
  case (Cons kc ps)
  obtain k c where kc: "kc = (k, c)"
    by (cases kc)
  have "distinct (f k c)"
    using Cons.prems(2) kc by simp
  moreover have "distinct (concat (map (\<lambda>(k, c). f k c) ps))"
  proof (rule Cons.IH)
    show "distinct (map fst ps)"
      using Cons.prems(1) by simp
    show "distinct (f k c)" if "(k, c) \<in> set ps" for k c
      using Cons.prems(2) [of k c] that by simp
    show "\<exists>ks. p = path @ k # ks" if "(k, c) \<in> set ps" "p \<in> set (f k c)" for k c p
      using Cons.prems(3) [of k c p] that by simp
  qed
  moreover have "set (f k c) \<inter> set (concat (map (\<lambda>(k, c). f k c) ps)) = {}"
  proof (rule ccontr)
    assume "set (f k c) \<inter> set (concat (map (\<lambda>(k, c). f k c) ps)) \<noteq> {}"
    then obtain p k' c' where p: "p \<in> set (f k c)" and kc': "(k', c') \<in> set ps"
      and p': "p \<in> set (f k' c')"
      by auto
    from Cons.prems(3) [of k c p] kc p obtain ks where "p = path @ k # ks"
      by auto
    moreover from Cons.prems(3) [of k' c' p] kc' p' obtain ks' where "p = path @ k' # ks'"
      by auto
    ultimately have "k = k'"
      by simp
    with kc' have "k \<in> fst ` set ps"
      by force
    with Cons.prems(1) kc show False
      by simp
  qed
  ultimately show ?case
    using kc by simp
qed

lemma distinct_walker:
  "wf_heap h \<Longrightarrow> distinct (map fst (walker h parents path v))"
proof (induction h parents path v rule: walker.induct)
  case (1 h parents path a)
  show ?case
  proof (cases "cell_at h a")
    case None
    then show ?thesis by simp
  next
    case (Some c)
    show ?thesis
    proof (cases "a \<in> set parents")
      case True
      with Some show ?thesis by simp
    next
      case False
      let ?below = "\<lambda>key child. map fst (walker h (a # parents) (path @ [key]) child)"
      have extend: "\<exists>ks. p = path @ key # ks" if "p \<in> set (?below key child)" for p key child
      proof -
        from that obtain circ where "(p, circ) \<in> set (walker h (a # parents) (path @ [key]) child)"
          by auto
        from walker_paths_extend [OF this] show ?thesis
          by auto
      qed
      have "distinct (concat (map (\<lambda>(key, child). ?below key child) (cell_props c)))"
      proof (rule distinct_concat_by_key)
        show "distinct (map fst (cell_props c))"
          using wf_heap_cell [OF 1(2) Some] .
        show "distinct (?below key child)" if "(key, child) \<in> set (cell_props c)" for key child
          using 1(1) [OF Some False that refl 1(2)] .
        show "\<exists>ks. p = path @ key # ks" if "p \<in> set (?below key child)" for p key child
          using extend [OF that] .
      qed
      moreover have "path \<notin> set (concat (map (\<lambda>(key, child). ?below key child) (cell_props c)))"
        using extend by fastforce
      moreover have "map fst (walker h parents path (JRef a))
          = path # concat (map (\<lambda>(key, child). ?below key child) (cell_props c))"
        using Some False by (simp add: map_concat comp_def case_prod_unfold)
      ultimately show ?thesis
        by simp
    qed
  qed
qed auto

lemma distinct_paths: "wf_heap h \<Longrightarrow> distinct (paths h obj)"
  by (simp add: paths_def distinct_walker)

text \<open>The two readings of "non-cyclic" agree.\<close>

lemma resolve_snoc:
  assumes "resolve h v (ks @ [key]) = Some x"
  obtains a c where "resolve h v ks = Some (JRef a)" and "cell_at h a = Some c"
    and "map_of (cell_props c) key = Some x"
proof -
  from assms obtain y where y: "resolve h v ks = Some y" and "resolve h y [key] = Some x"
    by (auto simp: resolve_append split: option.splits)
  then show thesis
    using that by (cases y) (auto split: option.splits)
qed

lemma trail_snoc:
  assumes "resolve h v ks = Some (JRef a)" and "cell_at h a = Some c"
    and "map_of (cell_props c) key = Some x"
  shows "trail h v (ks @ [key]) = trail h v ks @ [a]"
  using assms by (simp add: trail_append)

lemma acyclic_distinct_trail:
  assumes "acyclic_config h obj"
  shows "resolve h obj ks = Some x \<Longrightarrow> distinct (trail h obj ks)"
proof (induction ks arbitrary: x rule: rev_induct)
  case Nil
  then show ?case by simp
next
  case (snoc key ks)
  from snoc.prems obtain a c where a: "resolve h obj ks = Some (JRef a)"
    and c: "cell_at h a = Some c" and x: "map_of (cell_props c) key = Some x"
    by (rule resolve_snoc)
  from c have "a < length h"
    by (simp add: cell_at_def split: if_splits)
  with assms a have "a \<notin> set (trail h obj ks)"
    by (simp add: acyclic_config_def)
  moreover have "distinct (trail h obj ks)"
    using a by (rule snoc.IH)
  ultimately show ?case
    by (simp add: trail_snoc [OF a c x])
qed

lemma circular_free_imp_acyclic:
  assumes "circular_free h obj"
  shows "acyclic_config h obj"
proof -
  have "distinct (trail h obj ks) \<and> \<not> met_again h (trail h obj ks) x"
    if "resolve h obj ks = Some x" for ks x
    using that
  proof (induction ks arbitrary: x rule: rev_induct)
    case Nil
    then show ?case
      by (cases x) auto
  next
    case (snoc key ks)
    from snoc.prems obtain a c where a: "resolve h obj ks = Some (JRef a)"
      and c: "cell_at h a = Some c" and x: "map_of (cell_props c) key = Some x"
      by (rule resolve_snoc)
    from c have "a < length h"
      by (simp add: cell_at_def split: if_splits)
    with snoc.IH [OF a] have d: "distinct (trail h obj (ks @ [key]))"
      by (simp add: trail_snoc [OF a c x])
    from walker_complete [OF snoc.prems d, of "[]" "[]"]
    have "([] @ ks @ [key], met_again h ([] @ trail h obj (ks @ [key])) x)
         \<in> set (walker h [] [] obj)"
      by simp
    with assms have "\<not> met_again h (trail h obj (ks @ [key])) x"
      by (auto simp: circular_free_def list_all_iff)
    with d show ?case
      by simp
  qed
  then show ?thesis
    by (force simp: acyclic_config_def)
qed

lemma acyclic_imp_circular_free:
  assumes "wf_heap h" and "acyclic_config h obj"
  shows "circular_free h obj"
proof -
  have "\<not> circ" if "(p, circ) \<in> set (walker h [] [] obj)" for p circ
  proof
    assume circ
    from walker_sound [OF assms(1) that] obtain ks x where "resolve h obj ks = Some x"
      and "circ = met_again h ([] @ trail h obj ks) x"
      by auto
    with \<open>circ\<close> obtain a where "resolve h obj ks = Some (JRef a)" and "a < length h"
      and "a \<in> set (trail h obj ks)"
      by (cases x) auto
    with assms(2) show False
      by (simp add: acyclic_config_def)
  qed
  then show ?thesis
    by (auto simp: circular_free_def list_all_iff)
qed

text \<open>Joining keys that contain no dot loses nothing: splitting gives them back.\<close>

lemma split_nonempty: "split sep s \<noteq> []"
  by (induction s) (auto split: list.splits)

lemma split_no_separator: "sep \<notin> set k \<Longrightarrow> split sep k = [k]"
  by (induction k) auto

lemma split_at_separator: "sep \<notin> set k \<Longrightarrow> split sep (k @ sep # rest) = k # split sep rest"
  by (induction k) (auto simp: split_nonempty split: list.splits)

lemma split_join:
  "ks \<noteq> [] \<Longrightarrow> \<forall>k \<in> set ks. CHR ''.'' \<notin> set k \<Longrightarrow> split CHR ''.'' (join ''.'' ks) = ks"
proof (induction "''.''" ks rule: join.induct)
  case 1
  then show ?case by simp
next
  case (2 k)
  then show ?case
    by (simp add: split_no_separator)
next
  case (3 k k' ks)
  then show ?case
    by (simp add: split_at_separator)
qed

lemma resolve_keys_dotfree:
  "dotfree_heap h \<Longrightarrow> resolve h v ks = Some x \<Longrightarrow> \<forall>k \<in> set ks. CHR ''.'' \<notin> set k"
proof (induction ks arbitrary: v)
  case Nil
  then show ?case by simp
next
  case (Cons key ks)
  from Cons.prems(2) obtain a c child where "v = JRef a" and c: "cell_at h a = Some c"
    and child: "map_of (cell_props c) key = Some child" and "resolve h child ks = Some x"
    by (cases v) (auto split: option.splits)
  with Cons.IH Cons.prems(1) have "\<forall>k \<in> set ks. CHR ''.'' \<notin> set k"
    by simp
  moreover have "c \<in> set h"
    using c by (auto simp: cell_at_def split: if_splits)
  with Cons.prems(1) map_of_SomeD [OF child] have "CHR ''.'' \<notin> set key"
    by (auto simp: dotfree_heap_def list_all_iff)
  ultimately show ?case
    by simp
qed


lemma resolve_primitive: "\<not> truthy obj \<Longrightarrow> resolve h obj ks \<noteq> None \<Longrightarrow> ks = []"
  by (cases obj; cases ks) auto

lemma set_getSortedObjectPaths:
  assumes "wf_heap h" and "permuting srt"
  shows "set (getSortedObjectPaths srt h obj)
       = join ''.'' ` {ks. ks \<noteq> [] \<and> resolve h obj ks \<noteq> None \<and> distinct (trail h obj ks)}"
proof (cases "truthy obj")
  case True
  have "set (srt comparefn a) = set a" for comparefn a
    using assms(2) by (metis permuting_def set_mset_mset)
  with True show ?thesis
    by (auto simp: getSortedObjectPaths_def paths_iff [OF assms(1)])
next
  case False
  then have "{ks. ks \<noteq> [] \<and> resolve h obj ks \<noteq> None \<and> distinct (trail h obj ks)} = {}"
    using resolve_primitive by blast
  with False show ?thesis
    by (simp add: getSortedObjectPaths_def)
qed

text \<open>
  C6 (a configuration that refers to itself). \<open>walker\<close> is a total function: its
  termination proof counts the objects not yet among \<open>parents\<close>. For every heap,
  cyclic or not, and every value, the strings returned are exactly the joined key
  paths, other than the root's, that lead somewhere without descending into the same
  object twice; such a path is no longer than the heap has cells. A path may end at
  an object it has passed through (the point of recursion); no path continues from
  there.
\<close>

theorem cycles_are_cut:
  assumes "wf_heap h" and "permuting srt"
  shows "set (getSortedObjectPaths srt h obj)
         = join ''.'' ` {ks. ks \<noteq> [] \<and> resolve h obj ks \<noteq> None \<and> distinct (trail h obj ks)}
       \<and> (\<forall>ks. resolve h obj ks \<noteq> None \<and> distinct (trail h obj ks) \<longrightarrow> length ks \<le> length h)"
  using set_getSortedObjectPaths [OF assms] depth_bound by blast

lemma permuting_InsertionSort: "permuting InsertionSort"
  by (simp add: permuting_def mset_InsertionSort)

theorem cycles_are_cut_witness:
  "getSortedObjectPaths InsertionSort
     [ObjCell [(''name'', JStr ''x''), (''self'', JRef 0), (''child'', JRef 1)],
      ObjCell [(''parent'', JRef 0)]] (JRef 0)
   = [''child.parent'', ''child'', ''self'', ''name'']
   \<and> set [''child.parent'', ''child'', ''self'', ''name'']
   = join ''.'' ` {ks. ks \<noteq> []
       \<and> resolve [ObjCell [(''name'', JStr ''x''), (''self'', JRef 0), (''child'', JRef 1)],
                   ObjCell [(''parent'', JRef 0)]] (JRef 0) ks \<noteq> None
       \<and> distinct (trail [ObjCell [(''name'', JStr ''x''), (''self'', JRef 0), (''child'', JRef 1)],
                   ObjCell [(''parent'', JRef 0)]] (JRef 0) ks)}"
proof -
  let ?h = "[ObjCell [(''name'', JStr ''x''), (''self'', JRef 0), (''child'', JRef 1)],
             ObjCell [(''parent'', JRef 0)]]"
  have out: "getSortedObjectPaths InsertionSort ?h (JRef 0)
      = [''child.parent'', ''child'', ''self'', ''name'']"
    by (simp add: getSortedObjectPaths_def paths_def cell_at_def InsertionSort_def)
  have "wf_heap ?h"
    by (simp add: wf_heap_def)
  from cycles_are_cut [OF this permuting_InsertionSort, of "JRef 0"] out show ?thesis
    by simp
qed

text \<open>
  C7 (one path string per location, no duplicates). As stated the claim fails for keys
  that contain a dot: \<^verbatim>\<open>{ "a.b": 1, a: { b: 2 } }\<close> is not cyclic and has three locations
  below the root, two of which are joined to the same string \<^verbatim>\<open>a.b\<close>.
\<close>

theorem duplicate_path_strings:
  "wf_heap [ObjCell [(''a.b'', JNum 1), (''a'', JRef 1)], ObjCell [(''b'', JNum 2)]]
   \<and> acyclic_config [ObjCell [(''a.b'', JNum 1), (''a'', JRef 1)], ObjCell [(''b'', JNum 2)]]
       (JRef 0)
   \<and> getSortedObjectPaths InsertionSort
       [ObjCell [(''a.b'', JNum 1), (''a'', JRef 1)], ObjCell [(''b'', JNum 2)]] (JRef 0)
     = [''a.b'', ''a'', ''a.b'']
   \<and> \<not> distinct (getSortedObjectPaths InsertionSort
       [ObjCell [(''a.b'', JNum 1), (''a'', JRef 1)], ObjCell [(''b'', JNum 2)]] (JRef 0))"
proof -
  let ?h = "[ObjCell [(''a.b'', JNum 1), (''a'', JRef 1)], ObjCell [(''b'', JNum 2)]]"
  have out: "getSortedObjectPaths InsertionSort ?h (JRef 0) = [''a.b'', ''a'', ''a.b'']"
    by (simp add: getSortedObjectPaths_def paths_def cell_at_def InsertionSort_def)
  have "circular_free ?h (JRef 0)"
    by (simp add: circular_free_def cell_at_def)
  then have "acyclic_config ?h (JRef 0)"
    by (rule circular_free_imp_acyclic)
  moreover have "wf_heap ?h"
    by (simp add: wf_heap_def)
  ultimately show ?thesis
    using out by simp
qed

text \<open>
  C7, amended: for a non-cyclic configuration map the result holds one joined path
  string for each location below the root (sub-maps and leaves alike), each location
  once, and none for the root; the locations are finitely many. When no key contains
  a dot, no string occurs twice.
\<close>

theorem one_path_per_location:
  assumes "wf_heap h" and "acyclic_config h (JRef a)" and "permuting srt"
  shows "mset (getSortedObjectPaths srt h (JRef a))
         = image_mset (join ''.'') (mset_set {ks. ks \<noteq> [] \<and> resolve h (JRef a) ks \<noteq> None})
       \<and> finite {ks. resolve h (JRef a) ks \<noteq> None}
       \<and> (dotfree_heap h \<longrightarrow> distinct (getSortedObjectPaths srt h (JRef a)))"
proof -
  let ?located = "filter (\<lambda>arr. length arr \<noteq> 0) (paths h (JRef a))"
  have all: "set (paths h (JRef a)) = {ks. resolve h (JRef a) ks \<noteq> None}"
    using acyclic_distinct_trail [OF assms(2)] by (auto simp: paths_iff [OF assms(1)])
  have once: "distinct ?located"
    using distinct_paths [OF assms(1)] by simp
  have "set ?located = {ks. ks \<noteq> [] \<and> resolve h (JRef a) ks \<noteq> None}"
    using all by auto
  then have "mset_set {ks. ks \<noteq> [] \<and> resolve h (JRef a) ks \<noteq> None} = mset ?located"
    using once by (metis mset_set_set)
  moreover have out: "mset (getSortedObjectPaths srt h (JRef a)) = image_mset (join ''.'') (mset ?located)"
    using assms(3) by (simp add: getSortedObjectPaths_def permuting_def)
  moreover have "finite {ks. resolve h (JRef a) ks \<noteq> None}"
    using all by (metis List.finite_set)
  moreover have "distinct (getSortedObjectPaths srt h (JRef a))" if "dotfree_heap h"
  proof -
    have "inj_on (join ''.'') (set ?located)"
    proof (rule inj_on_inverseI)
      fix ks assume "ks \<in> set ?located"
      then have "ks \<noteq> []" and "resolve h (JRef a) ks \<noteq> None"
        using all by auto
      with that show "split CHR ''.'' (join ''.'' ks) = ks"
        using resolve_keys_dotfree by (intro split_join) auto
    qed
    with once have "distinct (map (join ''.'') ?located)"
      by (simp add: distinct_map)
    moreover have "mset (getSortedObjectPaths srt h (JRef a)) = mset (map (join ''.'') ?located)"
      using out by simp
    ultimately show ?thesis
      by (metis mset_eq_imp_distinct_iff)
  qed
  ultimately show ?thesis
    by simp
qed

theorem one_path_per_location_witness:
  "getSortedObjectPaths InsertionSort
     [ObjCell [(''process'', JRef 1), (''VERSION'', JStr ''1.2.3'')],
      ObjCell [(''env'', JRef 2)], ObjCell [(''NODE_ENV'', JStr ''production'')]] (JRef 0)
   = [''VERSION'', ''process.env.NODE_ENV'', ''process.env'', ''process'']
   \<and> mset [''VERSION'', ''process.env.NODE_ENV'', ''process.env'', ''process'']
   = image_mset (join ''.'') (mset_set {ks. ks \<noteq> []
       \<and> resolve [ObjCell [(''process'', JRef 1), (''VERSION'', JStr ''1.2.3'')],
                   ObjCell [(''env'', JRef 2)], ObjCell [(''NODE_ENV'', JStr ''production'')]]
            (JRef 0) ks \<noteq> None})
   \<and> distinct [''VERSION'', ''process.env.NODE_ENV'', ''process.env'', ''process'']"
proof -
  let ?h = "[ObjCell [(''process'', JRef 1), (''VERSION'', JStr ''1.2.3'')],
             ObjCell [(''env'', JRef 2)], ObjCell [(''NODE_ENV'', JStr ''production'')]]"
  have out: "getSortedObjectPaths InsertionSort ?h (JRef 0)
      = [''VERSION'', ''process.env.NODE_ENV'', ''process.env'', ''process'']"
    by (simp add: getSortedObjectPaths_def paths_def cell_at_def InsertionSort_def)
  have wf: "wf_heap ?h"
    by (simp add: wf_heap_def)
  have "circular_free ?h (JRef 0)"
    by (simp add: circular_free_def cell_at_def)
  then have acyclic: "acyclic_config ?h (JRef 0)"
    by (rule circular_free_imp_acyclic)
  have "dotfree_heap ?h"
    by (simp add: dotfree_heap_def)
  with one_path_per_location [OF wf acyclic permuting_InsertionSort] out show ?thesis
    by simp
qed

section \<open>The examples of the specification\<close>

text \<open>
  The replacements that section 8 of the specification lists, run on the host of the
  examples: a member chain, a bare identifier, a \<^verbatim>\<open>typeof\<close> expression, and an identifier
  whose replacement makes its parent foldable.
\<close>

lemmas plugin_defs =
  visit_MemberExpression_def visit_Identifier_def visit_UnaryExpression_def
  getReplacements_def sample_host_def processNode_def getFirstReplacementValueForNode_def
  getSortedObjectPaths_def paths_def cell_at_def InsertionSort_def get_def baseGet_def deep_def
  memberExpressionComparator_def identifierComparator_def unaryExpressionComparator_def
  typeofValues_def replaceAndEvaluateNode_def refuses_above_def parentNode_def program_def
  rebuild_def unknown_def

lemma example_member_chain:
  "visit_MemberExpression sample_host
     [ObjCell [(''process'', JRef 1)], ObjCell [(''env'', JRef 2)],
      ObjCell [(''NODE_ENV'', JStr ''production'')]] (JRef 0)
     \<lparr>node = MemberExpression
               (MemberExpression (Identifier ''process'') (Identifier ''env'') False)
               (Identifier ''NODE_ENV'') False,
      inside = OtherChild ''ExpressionStatement'' [] [], above = []\<rparr>
   = Inr (OtherNode ''ExpressionStatement'' [StringLiteral ''production''])"
  by (simp add: plugin_defs)

lemma example_identifier:
  "visit_Identifier sample_host [ObjCell [(''VERSION'', JStr ''1.2.3'')]] (JRef 0)
     \<lparr>node = Identifier ''VERSION'',
      inside = OtherChild ''ExpressionStatement'' [] [], above = []\<rparr>
   = Inr (OtherNode ''ExpressionStatement'' [StringLiteral ''1.2.3''])"
  by (simp add: plugin_defs)

lemma example_typeof:
  "visit_UnaryExpression sample_host [ObjCell [(''typeof window'', JStr ''undefined'')]] (JRef 0)
     \<lparr>node = UnaryExpression ''typeof'' (Identifier ''window''),
      inside = OtherChild ''ExpressionStatement'' [] [], above = []\<rparr>
   = Inr (OtherNode ''ExpressionStatement'' [StringLiteral ''undefined''])"
  by (simp add: plugin_defs)

lemma example_fold:
  "visit_Identifier sample_host [ObjCell [(''NODE_ENV'', JStr ''production'')]] (JRef 0)
     \<lparr>node = Identifier ''NODE_ENV'',
      inside = BinaryLeft ''==='' (StringLiteral ''production''),
      above = [OtherChild ''ExpressionStatement'' [] []]\<rparr>
   = Inr (OtherNode ''ExpressionStatement'' [BooleanLiteral True])"
  by (simp add: plugin_defs)

section \<open>The replacement resolver: the selected path and its value\<close>

lemma shift_filter: "shift (filter P xs) = List.find P xs"
  by (induction xs) auto

lemma resolver_unfold:
  "getFirstReplacementValueForNode srt toPath h obj comparator nodePath =
     (let found = get toPath h obj
                    (List.find (comparator nodePath) (getSortedObjectPaths srt h obj))
      in if truthy found then found else JNull)"
  by (simp add: getFirstReplacementValueForNode_def shift_filter)

lemma find_first:
  assumes "i < length xs" and "P (xs ! i)" and "\<forall>j<i. \<not> P (xs ! j)"
  shows "List.find P xs = Some (xs ! i)"
  using assms by (auto simp: find_Some_iff)

text \<open>Following keys that lead somewhere gives the location they lead to.\<close>

lemma descend_resolve: "resolve h v ks = Some x \<Longrightarrow> descend h v ks = x"
proof (induction ks arbitrary: v)
  case Nil
  then show ?case by simp
next
  case (Cons key ks)
  then show ?case
    by (cases v) (auto split: option.splits)
qed

lemma dotfree_not_property:
  assumes "dotfree_heap h" and "CHR ''.'' \<in> set p"
  shows "\<not> has_property h obj p"
proof (cases obj)
  case (JRef a)
  show ?thesis
  proof (cases "cell_at h a")
    case None
    with JRef show ?thesis by simp
  next
    case (Some c)
    then have "c \<in> set h"
      by (auto simp: cell_at_def split: if_splits)
    with assms have "p \<notin> fst ` set (cell_props c)"
      by (fastforce simp: dotfree_heap_def list_all_iff)
    then have "map_of (cell_props c) p = None"
      by (simp add: map_of_eq_None_iff)
    with JRef Some show ?thesis by simp
  qed
qed simp_all

lemma get_nested:
  assumes "dotfree_heap h" and "resolve h obj ks = Some x" and "ks \<noteq> []"
    and "toPath (join ''.'' ks) = ks"
  shows "get toPath h obj (Some (join ''.'' ks)) = x"
proof (cases ks)
  case Nil
  with assms(3) show ?thesis by simp
next
  case (Cons k rest)
  from assms(2) Cons obtain a c child where obj: "obj = JRef a" and c: "cell_at h a = Some c"
    and child: "map_of (cell_props c) k = Some child"
    by (cases obj) (auto split: option.splits)
  show ?thesis
  proof (cases rest)
    case Nil
    with Cons assms(2) obj c child have "child = x"
      by simp
    with Nil Cons obj c child show ?thesis
      by (simp add: get_def)
  next
    case (Cons k' rest')
    with \<open>ks = k # rest\<close> have "CHR ''.'' \<in> set (join ''.'' ks)"
      by simp
    then have "deep (join ''.'' ks)" and "\<not> has_property h obj (join ''.'' ks)"
      using dotfree_not_property [OF assms(1)] by (simp_all add: deep_def)
    with obj assms(3,4) descend_resolve [OF assms(2)] show ?thesis
      by (simp add: get_def baseGet_def)
  qed
qed

lemma get_own_property: "has_property h obj p \<Longrightarrow> get toPath h obj (Some p) = property h obj p"
  by (cases obj) (simp_all add: get_def)

text \<open>
  C4 (the resolver takes the first enumerated path that the comparator accepts and
  returns the value found by dotted-path lookup). As stated the claim fails in two
  ways. Where the value is falsy the resolver returns \<^verbatim>\<open>null\<close>
  (\<^verbatim>\<open>get(obj, key) || null\<close>): for \<^verbatim>\<open>{ a: 0 }\<close> and the identifier \<^verbatim>\<open>a\<close> the path \<^verbatim>\<open>a\<close> is
  selected, its value is \<^verbatim>\<open>0\<close>, and \<^verbatim>\<open>null\<close> is returned. And a key of the map that is the
  whole path string wins over the nested lookup: for \<^verbatim>\<open>{ "a.b": 1, a: { b: 2 } }\<close> and
  the member expression \<^verbatim>\<open>a.b\<close> the path \<^verbatim>\<open>a.b\<close> is selected, following \<^verbatim>\<open>a\<close> and then
  \<^verbatim>\<open>b\<close> gives \<^verbatim>\<open>2\<close>, and \<^verbatim>\<open>1\<close> is returned.
\<close>

theorem resolver_returns_null_for_zero:
  "List.find (identifierComparator
        \<lparr>node = Identifier ''a'', inside = UnaryArgument ''!'', above = []\<rparr>)
     (getSortedObjectPaths InsertionSort [ObjCell [(''a'', JNum 0)]] (JRef 0)) = Some ''a''
   \<and> descend [ObjCell [(''a'', JNum 0)]] (JRef 0) (split CHR ''.'' ''a'') = JNum 0
   \<and> getFirstReplacementValueForNode InsertionSort (split CHR ''.'')
        [ObjCell [(''a'', JNum 0)]] (JRef 0) identifierComparator
        \<lparr>node = Identifier ''a'', inside = UnaryArgument ''!'', above = []\<rparr> = JNull
   \<and> List.find (memberExpressionComparator sample_host
        \<lparr>node = MemberExpression (Identifier ''a'') (Identifier ''b'') False,
         inside = UnaryArgument ''!'', above = []\<rparr>)
     (getSortedObjectPaths InsertionSort
        [ObjCell [(''a.b'', JNum 1), (''a'', JRef 1)], ObjCell [(''b'', JNum 2)]] (JRef 0))
     = Some ''a.b''
   \<and> descend [ObjCell [(''a.b'', JNum 1), (''a'', JRef 1)], ObjCell [(''b'', JNum 2)]] (JRef 0)
        (split CHR ''.'' ''a.b'') = JNum 2
   \<and> getFirstReplacementValueForNode InsertionSort (split CHR ''.'')
        [ObjCell [(''a.b'', JNum 1), (''a'', JRef 1)], ObjCell [(''b'', JNum 2)]] (JRef 0)
        (memberExpressionComparator sample_host)
        \<lparr>node = MemberExpression (Identifier ''a'') (Identifier ''b'') False,
         inside = UnaryArgument ''!'', above = []\<rparr> = JNum 1"
  by (simp add: getFirstReplacementValueForNode_def getSortedObjectPaths_def paths_def
      cell_at_def InsertionSort_def identifierComparator_def memberExpressionComparator_def
      sample_host_def get_def deep_def)

text \<open>
  C4, amended: the resolver takes the first path, in the order of
  \<open>getSortedObjectPaths\<close>, that the comparator accepts, and looks it up in the
  configuration map: a property of the map named by the whole path string if there is
  one, and otherwise the value reached by following the path's dot-separated keys
  (nested access); it returns that value when it is truthy and \<^verbatim>\<open>null\<close> when it is
  falsy. The theorem says nothing of a node for which no path is accepted. Its second
  part is the nested access: in a map whose keys contain no dot, the lookup of the
  joined keys of a location gives the value at that location.
\<close>

theorem resolver_first_match:
  "(i < length (getSortedObjectPaths srt h obj)
      \<and> comparator nodePath (getSortedObjectPaths srt h obj ! i)
      \<and> (\<forall>j<i. \<not> comparator nodePath (getSortedObjectPaths srt h obj ! j)) \<longrightarrow>
      getFirstReplacementValueForNode srt toPath h obj comparator nodePath =
        (let found = get toPath h obj (Some (getSortedObjectPaths srt h obj ! i))
         in if truthy found then found else JNull))
   \<and> (has_property h obj p \<longrightarrow> get toPath h obj (Some p) = property h obj p)
   \<and> (\<not> has_property h obj p \<and> deep p \<and> \<not> nullish obj \<longrightarrow>
        get toPath h obj (Some p) = baseGet h obj (toPath p))
   \<and> (dotfree_heap h \<and> resolve h obj ks = Some x \<and> ks \<noteq> [] \<and> toPath (join ''.'' ks) = ks \<longrightarrow>
        get toPath h obj (Some (join ''.'' ks)) = x)"
proof (intro conjI impI)
  assume "i < length (getSortedObjectPaths srt h obj)
      \<and> comparator nodePath (getSortedObjectPaths srt h obj ! i)
      \<and> (\<forall>j<i. \<not> comparator nodePath (getSortedObjectPaths srt h obj ! j))"
  then have "List.find (comparator nodePath) (getSortedObjectPaths srt h obj)
      = Some (getSortedObjectPaths srt h obj ! i)"
    by (intro find_first) auto
  then show "getFirstReplacementValueForNode srt toPath h obj comparator nodePath =
        (let found = get toPath h obj (Some (getSortedObjectPaths srt h obj ! i))
         in if truthy found then found else JNull)"
    by (simp add: resolver_unfold)
next
  assume "has_property h obj p"
  then show "get toPath h obj (Some p) = property h obj p"
    by (rule get_own_property)
next
  assume "\<not> has_property h obj p \<and> deep p \<and> \<not> nullish obj"
  then show "get toPath h obj (Some p) = baseGet h obj (toPath p)"
    by (simp add: get_def)
next
  assume "dotfree_heap h \<and> resolve h obj ks = Some x \<and> ks \<noteq> [] \<and> toPath (join ''.'' ks) = ks"
  then show "get toPath h obj (Some (join ''.'' ks)) = x"
    by (intro get_nested) auto
qed

theorem resolver_first_match_witness:
  "getFirstReplacementValueForNode InsertionSort (split CHR ''.'')
     [ObjCell [(''process'', JRef 1)], ObjCell [(''env'', JRef 2)],
      ObjCell [(''NODE_ENV'', JStr ''production'')]] (JRef 0)
     (memberExpressionComparator sample_host)
     \<lparr>node = MemberExpression (Identifier ''process'') (Identifier ''env'') False,
      inside = MemberObject (Identifier ''DEBUG'') False, above = []\<rparr>
   = JRef 2
   \<and> get (split CHR ''.'')
     [ObjCell [(''process'', JRef 1)], ObjCell [(''env'', JRef 2)],
      ObjCell [(''NODE_ENV'', JStr ''production'')]] (JRef 0) (Some ''process.env.NODE_ENV'')
   = JStr ''production''
   \<and> get (split CHR ''.'')
     [ObjCell [(''a.b'', JNum 1), (''a'', JRef 1)], ObjCell [(''b'', JNum 2)]] (JRef 0)
     (Some ''a.b'')
   = JNum 1
   \<and> get (split CHR ''.'')
     [ObjCell [(''a'', JRef 1)], ObjCell [(''b'', JNum 2)]] (JRef 0) (Some ''a.b'')
   = JNum 2"
proof -
  let ?h = "[ObjCell [(''process'', JRef 1)], ObjCell [(''env'', JRef 2)],
             ObjCell [(''NODE_ENV'', JStr ''production'')]]"
  let ?np = "\<lparr>node = MemberExpression (Identifier ''process'') (Identifier ''env'') False,
               inside = MemberObject (Identifier ''DEBUG'') False, above = []\<rparr>"
  let ?dup = "[ObjCell [(''a.b'', JNum 1), (''a'', JRef 1)], ObjCell [(''b'', JNum 2)]]"
  let ?nested = "[ObjCell [(''a'', JRef 1)], ObjCell [(''b'', JNum 2)]]"
  have sorted_paths: "getSortedObjectPaths InsertionSort ?h (JRef 0)
      = [''process.env.NODE_ENV'', ''process.env'', ''process'']"
    by (simp add: getSortedObjectPaths_def paths_def cell_at_def InsertionSort_def)
  have second: "1 < length (getSortedObjectPaths InsertionSort ?h (JRef 0))
      \<and> memberExpressionComparator sample_host ?np
           (getSortedObjectPaths InsertionSort ?h (JRef 0) ! 1)
      \<and> (\<forall>j<1. \<not> memberExpressionComparator sample_host ?np
           (getSortedObjectPaths InsertionSort ?h (JRef 0) ! j))"
    unfolding sorted_paths by (simp add: memberExpressionComparator_def sample_host_def)
  have looked_up: "get (split CHR ''.'') ?h (JRef 0) (Some ''process.env'') = JRef 2"
    by (simp add: get_def deep_def baseGet_def cell_at_def)
  have "getFirstReplacementValueForNode InsertionSort (split CHR ''.'') ?h (JRef 0)
          (memberExpressionComparator sample_host) ?np
      = (let found = get (split CHR ''.'') ?h (JRef 0)
                       (Some (getSortedObjectPaths InsertionSort ?h (JRef 0) ! 1))
         in if truthy found then found else JNull)"
    using second
    by (rule resolver_first_match [where i = 1 and srt = InsertionSort and h = ?h
          and obj = "JRef 0" and comparator = "memberExpressionComparator sample_host"
          and nodePath = ?np and toPath = "split CHR ''.''", THEN conjunct1, THEN mp])
  then have "getFirstReplacementValueForNode InsertionSort (split CHR ''.'') ?h (JRef 0)
          (memberExpressionComparator sample_host) ?np = JRef 2"
    unfolding sorted_paths using looked_up by (simp add: Let_def)
  moreover have "get (split CHR ''.'') ?h (JRef 0)
                   (Some (join ''.'' [''process'', ''env'', ''NODE_ENV''])) = JStr ''production''"
  proof -
    have "dotfree_heap ?h
        \<and> resolve ?h (JRef 0) [''process'', ''env'', ''NODE_ENV''] = Some (JStr ''production'')
        \<and> [''process'', ''env'', ''NODE_ENV''] \<noteq> []
        \<and> split CHR ''.'' (join ''.'' [''process'', ''env'', ''NODE_ENV''])
            = [''process'', ''env'', ''NODE_ENV'']"
      by (simp add: dotfree_heap_def cell_at_def)
    then show ?thesis
      by (rule resolver_first_match [where h = ?h and obj = "JRef 0"
            and toPath = "split CHR ''.''" and ks = "[''process'', ''env'', ''NODE_ENV'']"
            and x = "JStr ''production''",
            THEN conjunct2, THEN conjunct2, THEN conjunct2, THEN mp])
  qed
  moreover have "get (split CHR ''.'') ?dup (JRef 0) (Some ''a.b'') = JNum 1"
  proof -
    have "has_property ?dup (JRef 0) ''a.b''"
      by (simp add: cell_at_def)
    then have "get (split CHR ''.'') ?dup (JRef 0) (Some ''a.b'')
        = property ?dup (JRef 0) ''a.b''"
      by (rule resolver_first_match [where h = ?dup and obj = "JRef 0" and p = "''a.b''"
            and toPath = "split CHR ''.''", THEN conjunct2, THEN conjunct1, THEN mp])
    then show ?thesis
      by (simp add: cell_at_def)
  qed
  moreover have "get (split CHR ''.'') ?nested (JRef 0) (Some ''a.b'') = JNum 2"
  proof -
    have "\<not> has_property ?nested (JRef 0) ''a.b'' \<and> deep ''a.b'' \<and> \<not> nullish (JRef 0)"
      by (simp add: cell_at_def deep_def)
    then have "get (split CHR ''.'') ?nested (JRef 0) (Some ''a.b'')
        = baseGet ?nested (JRef 0) (split CHR ''.'' ''a.b'')"
      by (rule resolver_first_match [where h = ?nested and obj = "JRef 0" and p = "''a.b''"
            and toPath = "split CHR ''.''",
            THEN conjunct2, THEN conjunct2, THEN conjunct1, THEN mp])
    then show ?thesis
      by (simp add: baseGet_def cell_at_def)
  qed
  ultimately show ?thesis
    by simp
qed



section \<open>The node rewriter: the fold step\<close>

text \<open>
  C3 (after a replacement, the parent is folded exactly when it is a binary comparison
  whose evaluation is confident). As stated the claim fails for a binary expression
  that is not a comparison: the code asks \<^verbatim>\<open>isBinaryExpression()\<close>, which holds for every
  binary operator. With \<^verbatim>\<open>X\<close> replaced by \<^verbatim>\<open>2\<close> in \<^verbatim>\<open>X + 1\<close> the parent is no comparison,
  and it is folded to \<^verbatim>\<open>3\<close>.
\<close>

theorem fold_of_an_addition:
  "\<not> isBinaryComparison
       (parentNode \<lparr>node = NumericLiteral 2,
                    inside = BinaryLeft ''+'' (NumericLiteral 1), above = []\<rparr>)
   \<and> replaceAndEvaluateNode sample_host (sample_valueToNode [])
       \<lparr>node = Identifier ''X'', inside = BinaryLeft ''+'' (NumericLiteral 1), above = []\<rparr>
       (JNum 2)
     = Inr (NumericLiteral 3)"
  by (simp add: replaceAndEvaluateNode_def refuses_above_def sample_host_def parentNode_def
      program_def rebuild_def comparison_operators_def)

text \<open>
  C3, amended: after the node is replaced, the parent is folded if and only if it is a
  binary expression (of any binary operator) whose static evaluation is confident. Then
  the literal of the evaluated value stands where the parent stood, inside unchanged
  ancestors; in every other case the substituted child stands in its place in the
  otherwise unchanged program. No ancestor above the parent is evaluated or replaced.
  This is the course of a run in which Babel throws nothing; an exception of
  \<^verbatim>\<open>replaceFn\<close>, \<^verbatim>\<open>replaceWith\<close> or \<^verbatim>\<open>evaluate\<close> ends the run where it is thrown.
\<close>

theorem fold_step:
  "replaceAndEvaluateNode env replaceFn nodePath replacement =
     (case replaceFn replacement of
        Inl err \<Rightarrow> Inl err
      | Inr n \<Rightarrow>
          (case refuses env (inside nodePath) n of
             Some err \<Rightarrow> Inl err
           | None \<Rightarrow>
               (let substituted = plug (inside nodePath) n
                in if isBinaryExpression substituted
                   then (case evaluate env substituted of
                           Inl err \<Rightarrow> Inl err
                         | Inr result \<Rightarrow>
                             if confident result
                             then (case replaceFn (evaluated result) of
                                     Inl err \<Rightarrow> Inl err
                                   | Inr literal \<Rightarrow>
                                       (case refuses_above env (above nodePath) literal of
                                          Some err \<Rightarrow> Inl err
                                        | None \<Rightarrow> Inr (rebuild (above nodePath) literal)))
                             else Inr (rebuild (above nodePath) substituted))
                   else Inr (rebuild (above nodePath) substituted))))"
  by (simp add: replaceAndEvaluateNode_def Let_def program_def parentNode_def
      split: sum.split option.split)

section \<open>The \<^verbatim>\<open>typeof\<close> visitor\<close>

lemma map_of_assign: "map_of (assign ps key v) = (map_of ps)(key \<mapsto> v)"
  by (induction ps) (auto simp: fun_eq_iff)

lemma keys_assign: "fst ` set (assign ps key v) = insert key (fst ` set ps)"
proof (induction ps)
  case Nil
  then show ?case by simp
next
  case (Cons kw ps)
  obtain k w where "kw = (k, w)"
    by (cases kw)
  with Cons show ?case
    by (cases "k = key") auto
qed

lemma distinct_assign: "distinct (map fst ps) \<Longrightarrow> distinct (map fst (assign ps key v))"
  by (induction ps) (auto simp: keys_assign)

lemma typeof_prefix: "(take 7 key = ''typeof '' \<and> drop 7 key = k) \<longleftrightarrow> key = ''typeof '' @ k"
proof
  assume "take 7 key = ''typeof '' \<and> drop 7 key = k"
  then have "take 7 key @ drop 7 key = ''typeof '' @ k"
    by simp
  then show "key = ''typeof '' @ k"
    by (simp only: append_take_drop_id)
next
  assume "key = ''typeof '' @ k"
  then show "take 7 key = ''typeof '' \<and> drop 7 key = k"
    by simp
qed

lemma map_of_typeof_fold:
  "map_of (foldl (\<lambda>tv key. if take 7 key = ''typeof ''
                             then assign tv (drop 7 key) (property h r key) else tv) acc keys) k
   = (if ''typeof '' @ k \<in> set keys then Some (property h r (''typeof '' @ k))
      else map_of acc k)"
proof (induction keys arbitrary: acc)
  case Nil
  then show ?case by simp
next
  case (Cons key keys)
  show ?case
  proof (cases "take 7 key = ''typeof ''")
    case True
    then show ?thesis
      using typeof_prefix [of key k] by (auto simp: Cons.IH map_of_assign)
  next
    case False
    then have "key \<noteq> ''typeof '' @ k"
      by auto
    with False show ?thesis
      by (simp add: Cons.IH)
  qed
qed

lemma distinct_typeof_fold:
  "distinct (map fst acc) \<Longrightarrow>
   distinct (map fst (foldl (\<lambda>tv key. if take 7 key = ''typeof ''
                             then assign tv (drop 7 key) (property h r key) else tv) acc keys))"
  by (induction keys arbitrary: acc) (auto simp: distinct_assign)

lemma map_of_typeofValues:
  assumes "cell_at h a = Some c"
  shows "map_of (typeofValues h (JRef a) (map fst (cell_props c))) k
       = map_of (cell_props c) (''typeof '' @ k)"
proof (cases "map_of (cell_props c) (''typeof '' @ k)")
  case None
  then have "''typeof '' @ k \<notin> set (map fst (cell_props c))"
    by (simp add: map_of_eq_None_iff)
  with None show ?thesis
    by (simp add: typeofValues_def map_of_typeof_fold)
next
  case (Some v)
  then have "''typeof '' @ k \<in> set (map fst (cell_props c))"
    by (metis map_of_eq_None_iff option.distinct(1) set_map)
  with Some assms show ?thesis
    by (simp add: typeofValues_def map_of_typeof_fold)
qed

text \<open>
  C5 (the \<^verbatim>\<open>UnaryExpression\<close> visitor). For an operator other than \<^verbatim>\<open>typeof\<close> the visitor
  returns the program as it was, whatever the configuration. For \<^verbatim>\<open>typeof\<close> and a
  configuration object, the node is processed against a new object whose properties
  are \<open>typeofValues\<close>: each key \<open>k\<close> of it holds what the configuration holds under
  \<^verbatim>\<open>typeof \<close> followed by \<open>k\<close>, it has no other key, and no key twice.
\<close>

theorem typeof_visitor:
  assumes "node nodePath = UnaryExpression operator argument"
  shows "(operator \<noteq> ''typeof'' \<longrightarrow>
            visit_UnaryExpression env h opts nodePath = Inr (program nodePath))
       \<and> (operator = ''typeof'' \<and> getReplacements env opts = Inr (JRef a)
            \<and> cell_at h a = Some c \<longrightarrow>
            visit_UnaryExpression env h opts nodePath =
              processNode env
                (h @ [ObjCell (typeofValues h (JRef a) (map fst (cell_props c)))])
                (JRef (length h)) nodePath
                (valueToNode env
                   (h @ [ObjCell (typeofValues h (JRef a) (map fst (cell_props c)))]))
                unaryExpressionComparator
            \<and> (\<forall>k. map_of (typeofValues h (JRef a) (map fst (cell_props c))) k
                     = map_of (cell_props c) (''typeof '' @ k))
            \<and> distinct (map fst (typeofValues h (JRef a) (map fst (cell_props c)))))"
proof (intro conjI impI)
  assume "operator \<noteq> ''typeof''"
  with assms show "visit_UnaryExpression env h opts nodePath = Inr (program nodePath)"
    by (simp add: visit_UnaryExpression_def)
next
  assume use: "operator = ''typeof'' \<and> getReplacements env opts = Inr (JRef a)
            \<and> cell_at h a = Some c"
  with assms show "visit_UnaryExpression env h opts nodePath =
              processNode env
                (h @ [ObjCell (typeofValues h (JRef a) (map fst (cell_props c)))])
                (JRef (length h)) nodePath
                (valueToNode env
                   (h @ [ObjCell (typeofValues h (JRef a) (map fst (cell_props c)))]))
                unaryExpressionComparator"
    by (simp add: visit_UnaryExpression_def Let_def)
  from use show "\<forall>k. map_of (typeofValues h (JRef a) (map fst (cell_props c))) k
                     = map_of (cell_props c) (''typeof '' @ k)"
    by (simp add: map_of_typeofValues)
  show "distinct (map fst (typeofValues h (JRef a) (map fst (cell_props c))))"
    unfolding typeofValues_def by (rule distinct_typeof_fold) simp
qed

theorem typeof_visitor_witness:
  "visit_UnaryExpression sample_host
     [ObjCell [(''typeof window'', JStr ''object''), (''VERSION'', JStr ''1.2.3'')]] (JRef 0)
     \<lparr>node = UnaryExpression ''!'' (Identifier ''window''),
      inside = OtherChild ''ExpressionStatement'' [] [], above = []\<rparr>
   = Inr (OtherNode ''ExpressionStatement'' [UnaryExpression ''!'' (Identifier ''window'')])
   \<and> visit_UnaryExpression sample_host
     [ObjCell [(''typeof window'', JStr ''object''), (''VERSION'', JStr ''1.2.3'')]] (JRef 0)
     \<lparr>node = UnaryExpression ''typeof'' (Identifier ''window''),
      inside = BinaryLeft ''==='' (StringLiteral ''object''), above = []\<rparr>
   = Inr (BooleanLiteral True)
   \<and> typeofValues
       [ObjCell [(''typeof window'', JStr ''object''), (''VERSION'', JStr ''1.2.3'')]] (JRef 0)
       [''typeof window'', ''VERSION'']
     = [(''window'', JStr ''object'')]"
proof -
  let ?h = "[ObjCell [(''typeof window'', JStr ''object''), (''VERSION'', JStr ''1.2.3'')]]"
  let ?not = "\<lparr>node = UnaryExpression ''!'' (Identifier ''window''),
                inside = OtherChild ''ExpressionStatement'' [] [], above = []\<rparr>"
  let ?typeof = "\<lparr>node = UnaryExpression ''typeof'' (Identifier ''window''),
                   inside = BinaryLeft ''==='' (StringLiteral ''object''), above = []\<rparr>"
  have tv: "typeofValues ?h (JRef 0) [''typeof window'', ''VERSION'']
            = [(''window'', JStr ''object'')]"
    by (simp add: typeofValues_def cell_at_def)
  have config: "''typeof'' = ''typeof'' \<and> getReplacements sample_host (JRef 0) = Inr (JRef 0)
      \<and> cell_at ?h 0 = Some (ObjCell [(''typeof window'', JStr ''object''),
                                       (''VERSION'', JStr ''1.2.3'')])"
    by (simp add: getReplacements_def cell_at_def)
  have "visit_UnaryExpression sample_host ?h (JRef 0) ?not = Inr (program ?not)"
    using typeof_visitor [where nodePath = ?not and operator = "''!''"
        and argument = "Identifier ''window''" and env = sample_host and h = ?h
        and opts = "JRef 0"]
    by simp
  moreover have "visit_UnaryExpression sample_host ?h (JRef 0) ?typeof
      = processNode sample_host
               (?h @ [ObjCell [(''window'', JStr ''object'')]]) (JRef 1) ?typeof
               (valueToNode sample_host (?h @ [ObjCell [(''window'', JStr ''object'')]]))
               unaryExpressionComparator"
    using typeof_visitor [where nodePath = ?typeof and operator = "''typeof''"
        and argument = "Identifier ''window''" and env = sample_host and h = ?h
        and opts = "JRef 0" and a = 0
        and c = "ObjCell [(''typeof window'', JStr ''object''), (''VERSION'', JStr ''1.2.3'')]"]
      config tv
    by simp
  moreover have "processNode sample_host
               (?h @ [ObjCell [(''window'', JStr ''object'')]]) (JRef 1) ?typeof
               (valueToNode sample_host (?h @ [ObjCell [(''window'', JStr ''object'')]]))
               unaryExpressionComparator = Inr (BooleanLiteral True)"
    by (simp add: plugin_defs)
  ultimately show ?thesis
    using tv by (simp add: program_def parentNode_def rebuild_def)
qed


text \<open>
  \<^verbatim>\<open>typeof\<close> of something that is not a bare identifier: the argument has no \<^verbatim>\<open>name\<close>, so
  the comparator holds for no key. What the resolver then looks up is the key
  \<^verbatim>\<open>undefined\<close> of \<^verbatim>\<open>typeofValues\<close>, that is what the configuration holds under
  \<^verbatim>\<open>typeof undefined\<close>; the program is returned as it was when that is not truthy.
\<close>

lemma typeof_unnamed_never_matches:
  assumes "node nodePath = UnaryExpression ''typeof'' argument"
    and "\<forall>name. argument \<noteq> Identifier name"
  shows "\<not> unaryExpressionComparator nodePath v"
proof -
  have "name_of argument = None"
    using assms(2) by (cases argument) auto
  with assms(1) show ?thesis
    by (simp add: unaryExpressionComparator_def)
qed

lemma typeofValues_undefined:
  "property (h @ [ObjCell (typeofValues h (JRef a) keys)]) (JRef (length h)) ''undefined''
   = (if ''typeof undefined'' \<in> set keys then property h (JRef a) ''typeof undefined''
      else JUndefined)"
  by (simp add: cell_at_def typeofValues_def map_of_typeof_fold)

lemma typeof_unnamed_unchanged:
  assumes "node nodePath = UnaryExpression ''typeof'' argument"
    and "\<forall>name. argument \<noteq> Identifier name"
    and "getReplacements env opts = Inr (JRef a)"
    and "\<not> truthy (property h (JRef a) ''typeof undefined'')"
  shows "visit_UnaryExpression env h opts nodePath = Inr (program nodePath)"
proof -
  obtain keys where keys: "Object_keys h (JRef a) = Inr keys"
    by (cases "cell_at h a") auto
  let ?h = "h @ [ObjCell (typeofValues h (JRef a) keys)]"
  have "List.find (unaryExpressionComparator nodePath) xs = None" for xs
    using typeof_unnamed_never_matches [OF assms(1,2)] by (simp add: find_None_iff)
  then have "getFirstReplacementValueForNode srt toPath ?h (JRef (length h))
               unaryExpressionComparator nodePath
             = (let found = property ?h (JRef (length h)) ''undefined''
                in if truthy found then found else JNull)" for srt toPath
    by (simp add: resolver_unfold get_def)
  moreover have "\<not> truthy (property ?h (JRef (length h)) ''undefined'')"
    unfolding typeofValues_undefined using assms(4) by simp
  ultimately have "getFirstReplacementValueForNode srt toPath ?h (JRef (length h))
               unaryExpressionComparator nodePath = JNull" for srt toPath
    by (simp add: Let_def del: property.simps)
  then have "processNode env ?h (JRef (length h)) nodePath replaceFn
                  unaryExpressionComparator = Inr (program nodePath)" for replaceFn
    by (simp add: processNode_def)
  with assms(1,3) keys show ?thesis
    by (simp add: visit_UnaryExpression_def Let_def)
qed

text \<open>
  C10 (\<^verbatim>\<open>typeof\<close> of something that is not a bare identifier is always left unchanged).
  The comparator indeed holds for no key, here for none of the keys of \<^verbatim>\<open>typeofValues\<close>.
  But the resolver, which its comment says returns the first matching value or null,
  hands the \<^verbatim>\<open>undefined\<close> of the empty selection to \<^verbatim>\<open>get\<close>, which reads the property named
  \<^verbatim>\<open>undefined\<close>. With the configuration \<^verbatim>\<open>{ 'typeof undefined': 'object' }\<close> the node
  \<^verbatim>\<open>typeof a.b\<close> in \<^verbatim>\<open>typeof a.b === 'string'\<close> is replaced by \<^verbatim>\<open>'object'\<close> and the comparison
  folded to \<^verbatim>\<open>false\<close>.
\<close>

theorem typeof_non_identifier_replaced:
  "\<not> unaryExpressionComparator
       \<lparr>node = UnaryExpression ''typeof''
                 (MemberExpression (Identifier ''a'') (Identifier ''b'') False),
        inside = BinaryLeft ''==='' (StringLiteral ''string''), above = []\<rparr> ''undefined''
   \<and> typeofValues [ObjCell [(''typeof undefined'', JStr ''object'')]] (JRef 0)
       [''typeof undefined'']
     = [(''undefined'', JStr ''object'')]
   \<and> getSortedObjectPaths (Array_sort sample_host)
       [ObjCell [(''typeof undefined'', JStr ''object'')],
        ObjCell [(''undefined'', JStr ''object'')]] (JRef 1)
     = [''undefined'']
   \<and> getFirstReplacementValueForNode (Array_sort sample_host) (stringToPath sample_host)
       [ObjCell [(''typeof undefined'', JStr ''object'')],
        ObjCell [(''undefined'', JStr ''object'')]] (JRef 1) unaryExpressionComparator
       \<lparr>node = UnaryExpression ''typeof''
                 (MemberExpression (Identifier ''a'') (Identifier ''b'') False),
        inside = BinaryLeft ''==='' (StringLiteral ''string''), above = []\<rparr>
     = JStr ''object''
   \<and> visit_UnaryExpression sample_host
       [ObjCell [(''typeof undefined'', JStr ''object'')]] (JRef 0)
       \<lparr>node = UnaryExpression ''typeof''
                 (MemberExpression (Identifier ''a'') (Identifier ''b'') False),
        inside = BinaryLeft ''==='' (StringLiteral ''string''), above = []\<rparr>
     = Inr (BooleanLiteral False)"
  by (simp add: plugin_defs)


section \<open>Errors\<close>

text \<open>
  C8 (the configuration error is the only error that reaches the caller; every failure
  at a node is a silent no-op). The first half holds: see the theorem below. The second
  does not: the code catches nothing outside \<open>getReplacements\<close>. With the
  configuration \<^verbatim>\<open>null\<close>, which \<open>getReplacements\<close> returns as it is, the visitor of
  \<^verbatim>\<open>typeof window\<close> throws the \<^verbatim>\<open>TypeError\<close> of \<^verbatim>\<open>Object.keys(null)\<close>. With the configuration
  \<^verbatim>\<open>{ VERSION: '1.2.3' }\<close>, the identifier visitor at the property of \<^verbatim>\<open>a.VERSION\<close> throws
  the \<^verbatim>\<open>TypeError\<close> with which \<^verbatim>\<open>replaceWith\<close> refuses a string literal there.
\<close>

theorem other_errors_reach_the_caller:
  "getReplacements sample_host JNull = Inr JNull
   \<and> visit_UnaryExpression sample_host [] JNull
       \<lparr>node = UnaryExpression ''typeof'' (Identifier ''window''),
        inside = OtherChild ''ExpressionStatement'' [] [], above = []\<rparr>
     = Inl TypeError
   \<and> getReplacements sample_host (JRef 0) = Inr (JRef 0)
   \<and> visit_Identifier sample_host [ObjCell [(''VERSION'', JStr ''1.2.3'')]] (JRef 0)
       \<lparr>node = Identifier ''VERSION'',
        inside = MemberProperty (Identifier ''a'') False,
        above = [OtherChild ''ExpressionStatement'' [] []]\<rparr>
     = Inl TypeError"
  by (simp add: plugin_defs)

text \<open>
  C8, amended. When the option is a path and \<^verbatim>\<open>fs.accessSync\<close> or \<^verbatim>\<open>require\<close> throws
  \<open>err\<close> for it, \<open>getReplacements\<close> throws \<^verbatim>\<open>new Error(err)\<close>, and so does each
  visitor that reads the configuration, before any node is replaced; the
  \<^verbatim>\<open>UnaryExpression\<close> visitor, which does not read it for an operator other than
  \<^verbatim>\<open>typeof\<close>, throws the same or leaves the program as it was. With a configuration
  that was read, a node for which the resolver returns \<^verbatim>\<open>null\<close> is left as it is,
  silently. Nothing else is caught: what \<^verbatim>\<open>valueToNode\<close> or \<^verbatim>\<open>replaceWith\<close> throws for
  the value found, and what \<^verbatim>\<open>Object.keys\<close> throws for a configuration that is \<^verbatim>\<open>null\<close> or
  \<^verbatim>\<open>undefined\<close>, reaches the caller.
\<close>

theorem errors_reach_the_caller:
  "((accessSync env (path_join env (cwd env) p) = Some err
      \<or> (accessSync env (path_join env (cwd env) p) = None
          \<and> require env (path_join env (cwd env) p) = Inl err)) \<longrightarrow>
      getReplacements env (JStr p) = Inl (Error err)
      \<and> visit_MemberExpression env h (JStr p) nodePath = Inl (Error err)
      \<and> visit_Identifier env h (JStr p) nodePath = Inl (Error err)
      \<and> (node nodePath = UnaryExpression ''typeof'' argument \<longrightarrow>
           visit_UnaryExpression env h (JStr p) nodePath = Inl (Error err))
      \<and> (visit_UnaryExpression env h (JStr p) nodePath = Inl (Error err)
           \<or> visit_UnaryExpression env h (JStr p) nodePath = Inr (program nodePath)))
   \<and> (getReplacements env opts = Inr r \<longrightarrow>
        visit_MemberExpression env h opts nodePath =
          processNode env h r nodePath (valueToNode env h) (memberExpressionComparator env)
        \<and> visit_Identifier env h opts nodePath =
          processNode env h r nodePath (valueToNode env h) identifierComparator)
   \<and> (getFirstReplacementValueForNode (Array_sort env) (stringToPath env) h r comparator
          nodePath = JNull \<longrightarrow>
        processNode env h r nodePath replaceFn comparator = Inr (program nodePath))
   \<and> (getFirstReplacementValueForNode (Array_sort env) (stringToPath env) h r comparator
          nodePath = v \<and> truthy v \<and> replaceFn v = Inl e \<longrightarrow>
        processNode env h r nodePath replaceFn comparator = Inl e)
   \<and> (getFirstReplacementValueForNode (Array_sort env) (stringToPath env) h r comparator
          nodePath = v \<and> truthy v \<and> replaceFn v = Inr n
        \<and> refuses env (inside nodePath) n = Some e \<longrightarrow>
        processNode env h r nodePath replaceFn comparator = Inl e)
   \<and> (node nodePath = UnaryExpression ''typeof'' argument
        \<and> getReplacements env opts = Inr r \<and> nullish r \<longrightarrow>
        visit_UnaryExpression env h opts nodePath = Inl TypeError)"
proof (intro conjI impI)
  assume bad: "accessSync env (path_join env (cwd env) p) = Some err
      \<or> (accessSync env (path_join env (cwd env) p) = None
          \<and> require env (path_join env (cwd env) p) = Inl err)"
  then show thrown: "getReplacements env (JStr p) = Inl (Error err)"
    by (auto simp: getReplacements_def Let_def)
  then show "visit_MemberExpression env h (JStr p) nodePath = Inl (Error err)"
    and "visit_Identifier env h (JStr p) nodePath = Inl (Error err)"
    by (simp_all add: visit_MemberExpression_def visit_Identifier_def)
  from thrown show "visit_UnaryExpression env h (JStr p) nodePath = Inl (Error err)
           \<or> visit_UnaryExpression env h (JStr p) nodePath = Inr (program nodePath)"
    by (simp add: visit_UnaryExpression_def split: ast.split)
  assume "node nodePath = UnaryExpression ''typeof'' argument"
  with thrown show "visit_UnaryExpression env h (JStr p) nodePath = Inl (Error err)"
    by (simp add: visit_UnaryExpression_def)
next
  assume "getReplacements env opts = Inr r"
  then show "visit_MemberExpression env h opts nodePath =
          processNode env h r nodePath (valueToNode env h) (memberExpressionComparator env)"
    and "visit_Identifier env h opts nodePath =
          processNode env h r nodePath (valueToNode env h) identifierComparator"
    by (simp_all add: visit_MemberExpression_def visit_Identifier_def)
next
  assume "getFirstReplacementValueForNode (Array_sort env) (stringToPath env) h r comparator
          nodePath = JNull"
  then show "processNode env h r nodePath replaceFn comparator = Inr (program nodePath)"
    by (simp add: processNode_def)
next
  assume "getFirstReplacementValueForNode (Array_sort env) (stringToPath env) h r comparator
          nodePath = v \<and> truthy v \<and> replaceFn v = Inl e"
  then show "processNode env h r nodePath replaceFn comparator = Inl e"
    by (auto simp: processNode_def replaceAndEvaluateNode_def)
next
  assume "getFirstReplacementValueForNode (Array_sort env) (stringToPath env) h r comparator
          nodePath = v \<and> truthy v \<and> replaceFn v = Inr n
        \<and> refuses env (inside nodePath) n = Some e"
  then show "processNode env h r nodePath replaceFn comparator = Inl e"
    by (auto simp: processNode_def replaceAndEvaluateNode_def)
next
  assume "node nodePath = UnaryExpression ''typeof'' argument
        \<and> getReplacements env opts = Inr r \<and> nullish r"
  then show "visit_UnaryExpression env h opts nodePath = Inl TypeError"
    by (cases r) (auto simp: visit_UnaryExpression_def)
qed


theorem errors_reach_the_caller_witness:
  "getReplacements sample_host (JStr ''missing.js'') = Inl (Error (SystemError ''ENOENT''))
   \<and> visit_Identifier sample_host [ObjCell [(''VERSION'', JStr ''1.2.3'')]]
       (JStr ''missing.js'')
       \<lparr>node = Identifier ''VERSION'',
        inside = OtherChild ''ExpressionStatement'' [] [], above = []\<rparr>
     = Inl (Error (SystemError ''ENOENT''))
   \<and> visit_Identifier sample_host [ObjCell [(''VERSION'', JStr ''1.2.3'')]] (JRef 0)
       \<lparr>node = Identifier ''OTHER'',
        inside = OtherChild ''ExpressionStatement'' [] [], above = []\<rparr>
     = Inr (OtherNode ''ExpressionStatement'' [Identifier ''OTHER''])
   \<and> visit_Identifier sample_host [ObjCell [(''VERSION'', JStr ''1.2.3'')]] (JRef 0)
       \<lparr>node = Identifier ''VERSION'',
        inside = MemberProperty (Identifier ''a'') False, above = []\<rparr>
     = Inl TypeError
   \<and> visit_Identifier (sample_host\<lparr>valueToNode := \<lambda>h v. Inl RangeError\<rparr>)
       [ObjCell [(''self'', JRef 0)]] (JRef 0)
       \<lparr>node = Identifier ''self'',
        inside = OtherChild ''ExpressionStatement'' [] [], above = []\<rparr>
     = Inl RangeError
   \<and> visit_UnaryExpression sample_host [] JUndefined
       \<lparr>node = UnaryExpression ''typeof'' (Identifier ''window''),
        inside = OtherChild ''ExpressionStatement'' [] [], above = []\<rparr>
     = Inl (Error TypeError)
   \<and> visit_UnaryExpression sample_host [] JNull
       \<lparr>node = UnaryExpression ''typeof'' (Identifier ''window''),
        inside = OtherChild ''ExpressionStatement'' [] [], above = []\<rparr>
     = Inl TypeError"
proof -
  let ?h = "[ObjCell [(''VERSION'', JStr ''1.2.3'')]]"
  let ?self = "[ObjCell [(''self'', JRef 0)]]"
  let ?stmt = "OtherChild ''ExpressionStatement'' [] []"
  let ?version = "\<lparr>node = Identifier ''VERSION'', inside = ?stmt, above = []\<rparr>"
  let ?other = "\<lparr>node = Identifier ''OTHER'', inside = ?stmt, above = []\<rparr>"
  let ?member = "\<lparr>node = Identifier ''VERSION'',
                   inside = MemberProperty (Identifier ''a'') False, above = []\<rparr>"
  let ?selfnode = "\<lparr>node = Identifier ''self'', inside = ?stmt, above = []\<rparr>"
  let ?typeof = "\<lparr>node = UnaryExpression ''typeof'' (Identifier ''window''),
                   inside = ?stmt, above = []\<rparr>"
  let ?stack = "sample_host\<lparr>valueToNode := \<lambda>h v. Inl RangeError\<rparr>"
  have missing: "accessSync sample_host (path_join sample_host (cwd sample_host) ''missing.js'')
      = Some (SystemError ''ENOENT'')
    \<or> (accessSync sample_host (path_join sample_host (cwd sample_host) ''missing.js'') = None
       \<and> require sample_host (path_join sample_host (cwd sample_host) ''missing.js'')
          = Inl (SystemError ''ENOENT''))"
    by (simp add: sample_host_def)
  have read: "getReplacements sample_host (JRef 0) = Inr (JRef 0)"
    and read_stack: "getReplacements ?stack (JRef 0) = Inr (JRef 0)"
    and read_null: "getReplacements sample_host JNull = Inr JNull"
    by (simp_all add: getReplacements_def)
  have failed: "getReplacements sample_host (JStr ''missing.js'')
        = Inl (Error (SystemError ''ENOENT''))
      \<and> visit_Identifier sample_host ?h (JStr ''missing.js'') ?version
        = Inl (Error (SystemError ''ENOENT''))"
    using errors_reach_the_caller [where env = sample_host and p = "''missing.js''"
        and err = "SystemError ''ENOENT''" and h = ?h and nodePath = ?version,
        THEN conjunct1, THEN mp, OF missing]
    by simp
  have "getFirstReplacementValueForNode (Array_sort sample_host) (stringToPath sample_host)
          ?h (JRef 0) identifierComparator ?other = JNull"
    by (simp add: plugin_defs)
  then have "processNode sample_host ?h (JRef 0) ?other (valueToNode sample_host ?h)
               identifierComparator = Inr (program ?other)"
    by (rule errors_reach_the_caller [where env = sample_host and h = ?h and r = "JRef 0"
        and nodePath = ?other and comparator = identifierComparator,
        THEN conjunct2, THEN conjunct2, THEN conjunct1, THEN mp])
  then have silent: "visit_Identifier sample_host ?h (JRef 0) ?other
      = Inr (OtherNode ''ExpressionStatement'' [Identifier ''OTHER''])"
    using errors_reach_the_caller [where env = sample_host and h = ?h and r = "JRef 0"
        and opts = "JRef 0" and nodePath = ?other,
        THEN conjunct2, THEN conjunct1, THEN mp, OF read]
    by (simp add: program_def rebuild_def parentNode_def)
  have "getFirstReplacementValueForNode (Array_sort sample_host) (stringToPath sample_host)
          ?h (JRef 0) identifierComparator ?member = JStr ''1.2.3''
        \<and> truthy (JStr ''1.2.3'')
        \<and> valueToNode sample_host ?h (JStr ''1.2.3'') = Inr (StringLiteral ''1.2.3'')
        \<and> refuses sample_host (inside ?member) (StringLiteral ''1.2.3'') = Some TypeError"
    by (simp add: plugin_defs)
  then have "processNode sample_host ?h (JRef 0) ?member (valueToNode sample_host ?h)
               identifierComparator = Inl TypeError"
    by (rule errors_reach_the_caller [where env = sample_host and h = ?h and r = "JRef 0"
        and nodePath = ?member and comparator = identifierComparator,
        THEN conjunct2, THEN conjunct2, THEN conjunct2, THEN conjunct2, THEN conjunct1,
        THEN mp])
  then have refused: "visit_Identifier sample_host ?h (JRef 0) ?member = Inl TypeError"
    using errors_reach_the_caller [where env = sample_host and h = ?h and r = "JRef 0"
        and opts = "JRef 0" and nodePath = ?member,
        THEN conjunct2, THEN conjunct1, THEN mp, OF read]
    by simp
  have "getFirstReplacementValueForNode (Array_sort ?stack) (stringToPath ?stack)
          ?self (JRef 0) identifierComparator ?selfnode = JRef 0
        \<and> truthy (JRef 0)
        \<and> valueToNode ?stack ?self (JRef 0) = Inl RangeError"
    by (simp add: plugin_defs)
  then have "processNode ?stack ?self (JRef 0) ?selfnode (valueToNode ?stack ?self)
               identifierComparator = Inl RangeError"
    by (rule errors_reach_the_caller [where env = ?stack and h = ?self and r = "JRef 0"
        and nodePath = ?selfnode and comparator = identifierComparator,
        THEN conjunct2, THEN conjunct2, THEN conjunct2, THEN conjunct1, THEN mp])
  then have overflow: "visit_Identifier ?stack ?self (JRef 0) ?selfnode = Inl RangeError"
    using errors_reach_the_caller [where env = ?stack and h = ?self and r = "JRef 0"
        and opts = "JRef 0" and nodePath = ?selfnode,
        THEN conjunct2, THEN conjunct1, THEN mp, OF read_stack]
    by simp
  have no_string: "visit_UnaryExpression sample_host [] JUndefined ?typeof = Inl (Error TypeError)"
    by (simp add: visit_UnaryExpression_def getReplacements_def)
  have "node ?typeof = UnaryExpression ''typeof'' (Identifier ''window'')
        \<and> getReplacements sample_host JNull = Inr JNull \<and> nullish JNull"
    using read_null by simp
  then have null: "visit_UnaryExpression sample_host [] JNull ?typeof = Inl TypeError"
    by (rule errors_reach_the_caller [where env = sample_host and opts = JNull and r = JNull
        and nodePath = ?typeof and h = "[]",
        THEN conjunct2, THEN conjunct2, THEN conjunct2, THEN conjunct2, THEN conjunct2,
        THEN mp])
  from failed silent refused overflow no_string null show ?thesis
    by simp
qed


section \<open>The configuration after enumeration and resolution\<close>

lemma strings_JStr: "strings (map JStr xs) = xs"
  by (induction xs) auto

lemma strings_JStr_comp: "strings (map (JStr \<circ> f) xs) = map f xs"
  by (induction xs) auto

lemma cell_at_append: "a < length h \<Longrightarrow> cell_at (h @ ext) a = cell_at h a"
  by (simp add: cell_at_def nth_append)

lemma getSortedObjectPaths_heap_eq:
  "getSortedObjectPaths_heap srt h obj
   = (length h, h @ [ArrCell (map JStr (getSortedObjectPaths srt h obj))])"
  by (simp add: getSortedObjectPaths_heap_def getSortedObjectPaths_def alloc_def
      sort_in_place_def Array_elements_def cell_at_def strings_JStr_comp)

lemma property_append: "ref_ok h v \<Longrightarrow> property (h @ ext) v key = property h v key"
  by (cases v) (simp_all add: cell_at_append)

lemma has_property_append:
  "ref_ok h v \<Longrightarrow> has_property (h @ ext) v key = has_property h v key"
  by (cases v) (simp_all add: cell_at_append)

lemma property_ref_ok:
  assumes "closed_heap h" and "ref_ok h v"
  shows "ref_ok h (property h v key)"
proof (cases v)
  case (JRef a)
  with assms(2) have a: "a < length h"
    by simp
  show ?thesis
  proof (cases "map_of (cell_props (h ! a)) key")
    case None
    with JRef a show ?thesis
      by (simp add: cell_at_def split: cell.split)
  next
    case (Some child)
    from a have "h ! a \<in> set h"
      by simp
    with assms(1) map_of_SomeD [OF Some] have "ref_ok h child"
      by (auto simp: closed_heap_def list_all_iff)
    with JRef a Some show ?thesis
      by (simp add: cell_at_def)
  qed
next
  case (JStr s)
  show ?thesis
  proof (cases "map_of (zip (map string_of_nat [0..<length s]) s) key")
    case None
    then have "property h (JStr s) key
        = (if key = ''length'' then JNum (int (length s)) else JUndefined)"
      by (simp only: property.simps option.case)
    with JStr show ?thesis
      by (simp del: property.simps)
  next
    case (Some c)
    then have "property h (JStr s) key = JStr [c]"
      by (simp only: property.simps option.case)
    with JStr show ?thesis
      by (simp del: property.simps)
  qed
qed simp_all

lemma descend_append:
  "closed_heap h \<Longrightarrow> ref_ok h v \<Longrightarrow> descend (h @ ext) v ks = descend h v ks"
proof (induction ks arbitrary: v)
  case Nil
  then show ?case by simp
next
  case (Cons key ks)
  from Cons.prems have "ref_ok h (property h v key)"
    by (rule property_ref_ok)
  with Cons.IH Cons.prems(1)
  have "descend (h @ ext) (property h v key) ks = descend h (property h v key) ks"
    by simp
  with Cons.prems(2) show ?case
    by (simp add: property_append del: property.simps)
qed

lemma get_append:
  assumes "closed_heap h" and "ref_ok h obj"
  shows "get toPath (h @ ext) obj k = get toPath h obj k"
  using assms
  by (simp add: get_def baseGet_def descend_append property_append has_property_append
      del: property.simps has_property.simps split: option.split)

lemma getFirstReplacementValueForNode_heap_eq:
  "getFirstReplacementValueForNode_heap srt toPath h obj comparator nodePath
   = (let sortedPaths = getSortedObjectPaths srt h obj;
          matching = filter (\<lambda>v. comparator nodePath v) sortedPaths;
          h3 = h @ [ArrCell (map JStr sortedPaths), ArrCell (map JStr (tl matching))];
          found = get toPath h3 obj (shift matching)
      in (if truthy found then found else JNull, h3))"
proof -
  let ?sorted = "getSortedObjectPaths srt h obj"
  let ?matching = "filter (\<lambda>v. comparator nodePath v) ?sorted"
  let ?h1 = "h @ [ArrCell (map JStr ?sorted)]"
  have elems: "Array_elements ?h1 (length h) = map JStr ?sorted"
    by (simp add: Array_elements_def cell_at_def)
  have sh: "shift_in_place (h @ [ArrCell (map JStr ?sorted), ArrCell (map JStr ?matching)])
        (Suc (length h))
      = (map_option JStr (shift ?matching),
         h @ [ArrCell (map JStr ?sorted), ArrCell (map JStr (tl ?matching))])"
    by (cases ?matching) (simp_all add: shift_in_place_def Array_elements_def cell_at_def nth_append
        list_update_append)
  have key: "key_of (map_option JStr k) = k" for k
    by (cases k) auto
  show ?thesis
    by (simp add: getFirstReplacementValueForNode_heap_def getSortedObjectPaths_heap_eq
        alloc_def elems strings_JStr sh key Let_def)
qed

text \<open>
  C9 (enumeration and resolution leave the configuration as it was). The heap that
  either function returns begins with the heap it was given: every cell that existed
  before the call, the configuration's among them, is unchanged, and what is written
  (the sort in place, the shift in place) lands in cells made by the call. The
  functions return what their heap-free versions return, and in a heap without
  dangling references every lookup in the configuration gives after the call what it
  gave before.
\<close>

theorem configuration_unchanged:
  "take (length h) (snd (getSortedObjectPaths_heap srt h obj)) = h
   \<and> Array_elements (snd (getSortedObjectPaths_heap srt h obj))
        (fst (getSortedObjectPaths_heap srt h obj))
     = map JStr (getSortedObjectPaths srt h obj)
   \<and> take (length h) (snd (getFirstReplacementValueForNode_heap srt toPath h obj comparator nodePath)) = h
   \<and> (closed_heap h \<and> ref_ok h obj \<longrightarrow>
        fst (getFirstReplacementValueForNode_heap srt toPath h obj comparator nodePath)
          = getFirstReplacementValueForNode srt toPath h obj comparator nodePath
        \<and> (\<forall>key. get toPath (snd (getSortedObjectPaths_heap srt h obj)) obj key = get toPath h obj key)
        \<and> (\<forall>key. get toPath (snd (getFirstReplacementValueForNode_heap srt toPath h obj comparator nodePath))
                   obj key = get toPath h obj key))"
proof (intro conjI impI)
  show "take (length h) (snd (getSortedObjectPaths_heap srt h obj)) = h"
    by (simp add: getSortedObjectPaths_heap_eq)
  show "Array_elements (snd (getSortedObjectPaths_heap srt h obj))
        (fst (getSortedObjectPaths_heap srt h obj))
     = map JStr (getSortedObjectPaths srt h obj)"
    by (simp add: getSortedObjectPaths_heap_eq Array_elements_def cell_at_def)
  show "take (length h) (snd (getFirstReplacementValueForNode_heap srt toPath h obj comparator nodePath)) = h"
    by (simp add: getFirstReplacementValueForNode_heap_eq Let_def)
  assume "closed_heap h \<and> ref_ok h obj"
  then have same: "get toPath (h @ ext) obj k = get toPath h obj k" for ext k
    by (simp add: get_append)
  then show "fst (getFirstReplacementValueForNode_heap srt toPath h obj comparator nodePath)
        = getFirstReplacementValueForNode srt toPath h obj comparator nodePath"
    by (simp add: getFirstReplacementValueForNode_heap_eq getFirstReplacementValueForNode_def
        Let_def)
  show "\<forall>key. get toPath (snd (getSortedObjectPaths_heap srt h obj)) obj key = get toPath h obj key"
    by (simp add: getSortedObjectPaths_heap_eq same)
  show "\<forall>key. get toPath (snd (getFirstReplacementValueForNode_heap srt toPath h obj comparator nodePath))
                   obj key = get toPath h obj key"
    by (simp add: getFirstReplacementValueForNode_heap_eq Let_def same)
qed


theorem configuration_unchanged_witness:
  "getSortedObjectPaths_heap InsertionSort
     [ObjCell [(''VERSION'', JStr ''1.2.3''), (''env'', JRef 1)], ObjCell [(''DEBUG'', JNum 0)]]
     (JRef 0)
   = (2, [ObjCell [(''VERSION'', JStr ''1.2.3''), (''env'', JRef 1)], ObjCell [(''DEBUG'', JNum 0)],
          ArrCell [JStr ''env.DEBUG'', JStr ''env'', JStr ''VERSION'']])
   \<and> getFirstReplacementValueForNode_heap InsertionSort (split CHR ''.'')
     [ObjCell [(''VERSION'', JStr ''1.2.3''), (''env'', JRef 1)], ObjCell [(''DEBUG'', JNum 0)]]
     (JRef 0) identifierComparator
     \<lparr>node = Identifier ''VERSION'', inside = UnaryArgument ''!'', above = []\<rparr>
   = (JStr ''1.2.3'',
      [ObjCell [(''VERSION'', JStr ''1.2.3''), (''env'', JRef 1)], ObjCell [(''DEBUG'', JNum 0)],
       ArrCell [JStr ''env.DEBUG'', JStr ''env'', JStr ''VERSION''], ArrCell []])
   \<and> getFirstReplacementValueForNode InsertionSort (split CHR ''.'')
     [ObjCell [(''VERSION'', JStr ''1.2.3''), (''env'', JRef 1)], ObjCell [(''DEBUG'', JNum 0)]]
     (JRef 0) identifierComparator
     \<lparr>node = Identifier ''VERSION'', inside = UnaryArgument ''!'', above = []\<rparr>
   = JStr ''1.2.3''"
proof -
  let ?h = "[ObjCell [(''VERSION'', JStr ''1.2.3''), (''env'', JRef 1)],
             ObjCell [(''DEBUG'', JNum 0)]]"
  let ?np = "\<lparr>node = Identifier ''VERSION'', inside = UnaryArgument ''!'', above = []\<rparr>"
  have sorted_paths: "getSortedObjectPaths_heap InsertionSort ?h (JRef 0)
      = (2, ?h @ [ArrCell [JStr ''env.DEBUG'', JStr ''env'', JStr ''VERSION'']])"
    by (simp add: getSortedObjectPaths_heap_def alloc_def sort_in_place_def Array_elements_def
        paths_def cell_at_def InsertionSort_def)
  have first: "getFirstReplacementValueForNode_heap InsertionSort (split CHR ''.'') ?h (JRef 0)
        identifierComparator ?np
      = (JStr ''1.2.3'',
         ?h @ [ArrCell [JStr ''env.DEBUG'', JStr ''env'', JStr ''VERSION''], ArrCell []])"
    by (simp add: getFirstReplacementValueForNode_heap_def sorted_paths alloc_def
        shift_in_place_def Array_elements_def cell_at_def identifierComparator_def get_def
        Let_def del: One_nat_def)
  have "closed_heap ?h \<and> ref_ok ?h (JRef 0)"
    by (simp add: closed_heap_def)
  then have "fst (getFirstReplacementValueForNode_heap InsertionSort (split CHR ''.'') ?h (JRef 0)
               identifierComparator ?np)
      = getFirstReplacementValueForNode InsertionSort (split CHR ''.'') ?h (JRef 0) identifierComparator ?np"
    by (rule configuration_unchanged [where h = ?h and srt = InsertionSort and obj = "JRef 0"
        and comparator = identifierComparator and nodePath = ?np
        and toPath = "split CHR ''.''",
        THEN conjunct2, THEN conjunct2, THEN conjunct2, THEN mp, THEN conjunct1])
  with sorted_paths first show ?thesis
    by simp
qed

end
